theory Spec2Isabelle
  imports Complex_Main "HOL-Library.Multiset"
begin

section \<open>Floating-point arithmetic of the two agents\<close>

text \<open>
  The agents compute with \<^verbatim>\<open>float\<close> and \<^verbatim>\<open>double\<close>, the binary32 and binary64 formats of
  IEEE 754. A value of either format is a finite real number, an infinity or a NaN; the
  two zeros are not told apart (they compare equal and no statement below divides by a
  zero). An operation returns the exact result rounded to the format of its C++ type, to
  nearest with ties to even, as compilers for x86-64 do (\<^verbatim>\<open>FLT_EVAL_METHOD\<close> 0).
  The type \<open>ieee\<close> holds every real number, those of neither format too: a statement
  about all values of the type covers all values of the formats, and the values of the
  examples are numbers of binary32.
\<close>

datatype ieee = Finite real | PlusInf | MinusInf | NaN

text \<open>\<open>pow2 e\<close> is \<open>2^e\<close> for an integer \<open>e\<close>.\<close>

definition pow2 :: "int \<Rightarrow> real" where
  "pow2 e = (if 0 \<le> e then 2 ^ nat e else 1 / 2 ^ nat (- e))"

text \<open>The exponent of the binade of \<open>x\<close> in a format with exponents \<open>lo..hi\<close>: the least
  \<open>e\<close> from \<open>lo\<close> with \<open>|x| < 2^(e+1)\<close>, and \<open>hi\<close> beyond the format. Below \<open>2^lo\<close> lie the
  subnormal numbers, which share the spacing of the lowest binade.\<close>

definition binade :: "int \<Rightarrow> int \<Rightarrow> real \<Rightarrow> int" where
  "binade lo hi x =
     (case find (\<lambda>e. \<bar>x\<bar> < pow2 (e + 1)) [lo..hi] of Some e \<Rightarrow> e | None \<Rightarrow> hi)"

text \<open>Rounding a real number to the nearest integer, a tie to the even one.\<close>

definition round_even :: "real \<Rightarrow> int" where
  "round_even y =
     (let n = \<lfloor>y\<rfloor>
      in if y - of_int n < 1 / 2 then n
         else if 1 / 2 < y - of_int n then n + 1
         else if even n then n else n + 1)"

text \<open>Rounding to a format of precision \<open>p\<close> bits: to the nearest multiple of the spacing
  \<open>2^(e - p + 1)\<close> of the binade; a result of magnitude \<open>2^(hi+1)\<close> or more overflows to
  an infinity.\<close>

definition round_real :: "nat \<Rightarrow> int \<Rightarrow> int \<Rightarrow> real \<Rightarrow> real" where
  "round_real p lo hi x =
     (let u = pow2 (binade lo hi x - int p + 1) in of_int (round_even (x / u)) * u)"

definition round_ieee :: "nat \<Rightarrow> int \<Rightarrow> int \<Rightarrow> real \<Rightarrow> ieee" where
  "round_ieee p lo hi x =
     (let y = round_real p lo hi x
      in if pow2 (hi + 1) \<le> y then PlusInf
         else if y \<le> - pow2 (hi + 1) then MinusInf
         else Finite y)"

lemma pow2_powr: "pow2 e = 2 powr (of_int e)"
  by (simp add: pow2_def powr_real_of_int inverse_eq_divide)

lemma pow2_pos: "0 < pow2 e"
  by (simp add: pow2_powr)

lemma pow2_add: "pow2 (a + b) = pow2 a * pow2 b"
  by (simp add: pow2_powr powr_add)

lemma pow2_mono: "a \<le> b \<Longrightarrow> pow2 a \<le> pow2 b"
  by (simp add: pow2_powr)

lemma pow2_less: "a < b \<Longrightarrow> pow2 a < pow2 b"
  by (simp add: pow2_powr)

lemma pow2_ratio:
  assumes "a \<le> b"
  shows "pow2 b = of_int (2 ^ nat (b - a)) * pow2 a"
proof -
  have "pow2 b = pow2 ((b - a) + a)" by simp
  also have "\<dots> = pow2 (b - a) * pow2 a" by (rule pow2_add)
  also have "pow2 (b - a) = of_int (2 ^ nat (b - a))" using assms by (simp add: pow2_def)
  finally show ?thesis .
qed

lemma find_first_upto:
  assumes "lo \<le> e" "e \<le> hi" "P e"
  shows "\<exists>e'. find P [lo..hi] = Some e' \<and> lo \<le> e' \<and> e' \<le> e \<and> P e'
           \<and> (\<forall>d. lo \<le> d \<and> d < e' \<longrightarrow> \<not> P d)"
proof -
  have "e \<in> set [lo..hi]" using assms by simp
  with assms(3) have "find P [lo..hi] \<noteq> None" by (auto simp: find_None_iff)
  then obtain e' where f: "find P [lo..hi] = Some e'" by auto
  then obtain i where i: "i < length [lo..hi]" "P ([lo..hi] ! i)" "e' = [lo..hi] ! i"
    "\<forall>j<i. \<not> P ([lo..hi] ! j)"
    by (auto simp: find_Some_iff)
  have ei: "e' = lo + int i" using i(1,3) by simp
  have pre: "\<forall>d. lo \<le> d \<and> d < e' \<longrightarrow> \<not> P d"
  proof (intro allI impI)
    fix d assume d: "lo \<le> d \<and> d < e'"
    let ?j = "nat (d - lo)"
    have "?j < i" using d ei by linarith
    moreover have "int i < hi - lo + 1" using i(1) by simp
    then have "lo + int ?j \<le> hi" using d ei by linarith
    then have "[lo..hi] ! ?j = lo + int ?j" by (rule nth_upto)
    then have "[lo..hi] ! ?j = d" using d by simp
    ultimately show "\<not> P d" using i(4) by auto
  qed
  have "e' \<le> e"
  proof (rule ccontr)
    assume "\<not> e' \<le> e"
    then have "lo \<le> e \<and> e < e'" using assms(1) by simp
    with pre assms(3) show False by blast
  qed
  with f i(2,3) ei pre show ?thesis by simp
qed

lemma binade_range:
  assumes "lo \<le> hi"
  shows "lo \<le> binade lo hi x" "binade lo hi x \<le> hi"
proof -
  have "lo \<le> binade lo hi x \<and> binade lo hi x \<le> hi"
  proof (cases "find (\<lambda>e. \<bar>x\<bar> < pow2 (e + 1)) [lo..hi]")
    case None
    then show ?thesis using assms by (simp add: binade_def)
  next
    case (Some e)
    then have "e \<in> set [lo..hi]" by (auto simp: find_Some_iff)
    then show ?thesis using Some by (simp add: binade_def)
  qed
  then show "lo \<le> binade lo hi x" "binade lo hi x \<le> hi" by simp_all
qed

lemma binade_upper:
  assumes "lo \<le> e" "e \<le> hi" "\<bar>x\<bar> < pow2 (e + 1)"
  shows "binade lo hi x \<le> e" "\<bar>x\<bar> < pow2 (binade lo hi x + 1)"
    "lo < binade lo hi x \<Longrightarrow> pow2 (binade lo hi x) \<le> \<bar>x\<bar>"
proof -
  from find_first_upto[of lo e hi "\<lambda>e. \<bar>x\<bar> < pow2 (e + 1)", OF assms] obtain e' where
    e': "find (\<lambda>e. \<bar>x\<bar> < pow2 (e + 1)) [lo..hi] = Some e'" "lo \<le> e'" "e' \<le> e"
    "\<bar>x\<bar> < pow2 (e' + 1)" "\<forall>d. lo \<le> d \<and> d < e' \<longrightarrow> \<not> \<bar>x\<bar> < pow2 (d + 1)"
    by blast
  have b: "binade lo hi x = e'" using e'(1) by (simp add: binade_def)
  show "binade lo hi x \<le> e" "\<bar>x\<bar> < pow2 (binade lo hi x + 1)" using b e'(3,4) by simp_all
  show "lo < binade lo hi x \<Longrightarrow> pow2 (binade lo hi x) \<le> \<bar>x\<bar>"
  proof -
    assume "lo < binade lo hi x"
    then have "lo \<le> e' - 1 \<and> e' - 1 < e'" using b by simp
    with e'(5) have "\<not> \<bar>x\<bar> < pow2 (e' - 1 + 1)" by blast
    then show ?thesis using b by simp
  qed
qed

lemma binade_eq:
  assumes "lo \<le> e" "e \<le> hi" "e = lo \<or> pow2 e \<le> \<bar>x\<bar>" "\<bar>x\<bar> < pow2 (e + 1)"
  shows "binade lo hi x = e"
proof (rule ccontr)
  assume ne: "binade lo hi x \<noteq> e"
  note u = binade_upper[OF assms(1,2,4)]
  have r: "lo \<le> binade lo hi x" using binade_range(1)[of lo hi x] assms(1,2) by simp
  from ne u(1) have lt: "binade lo hi x < e" by simp
  then have "lo < e" using r by simp
  with assms(3) have "pow2 e \<le> \<bar>x\<bar>" by simp
  moreover have "pow2 (binade lo hi x + 1) \<le> pow2 e" using lt by (intro pow2_mono) simp
  ultimately show False using u(2) by simp
qed

lemma round_even_le: "y \<le> of_int m \<Longrightarrow> round_even y \<le> m"
proof -
  assume a: "y \<le> of_int m"
  have f: "\<lfloor>y\<rfloor> \<le> m" using a by (simp add: floor_le_iff)
  show ?thesis
  proof (cases "y - of_int \<lfloor>y\<rfloor> < 1 / 2")
    case True
    then show ?thesis using f by (simp add: round_even_def Let_def)
  next
    case False
    then have "of_int \<lfloor>y\<rfloor> < y" by linarith
    with a have "real_of_int \<lfloor>y\<rfloor> < of_int m" by linarith
    then have "\<lfloor>y\<rfloor> + 1 \<le> m" by simp
    then show ?thesis using f by (simp add: round_even_def Let_def)
  qed
qed

lemma round_even_ge: "of_int m \<le> y \<Longrightarrow> m \<le> round_even y"
proof -
  assume "of_int m \<le> y"
  then have "m \<le> \<lfloor>y\<rfloor>" by (simp add: le_floor_iff)
  then show ?thesis by (simp add: round_even_def Let_def)
qed

lemma round_even_int: "round_even (of_int m) = m"
  using round_even_le[of "of_int m" m] round_even_ge[of m "of_int m"] by simp

lemma round_real_grid:
  assumes "lo \<le> g + int p - 1" "g + int p - 1 \<le> hi" "\<bar>x\<bar> < pow2 (g + int p)"
  shows "x \<le> of_int m * pow2 g \<Longrightarrow> round_real p lo hi x \<le> of_int m * pow2 g"
    and "of_int m * pow2 g \<le> x \<Longrightarrow> of_int m * pow2 g \<le> round_real p lo hi x"
proof -
  let ?e = "binade lo hi x"
  let ?u = "pow2 (?e - int p + 1)"
  let ?k = "2 ^ nat (g - (?e - int p + 1)) :: int"
  have "\<bar>x\<bar> < pow2 (g + int p - 1 + 1)" using assms(3) by simp
  from binade_upper(1)[OF assms(1,2) this] have le: "?e - int p + 1 \<le> g" by simp
  have k: "pow2 g = of_int ?k * ?u" by (rule pow2_ratio[OF le])
  have u: "0 < ?u" by (rule pow2_pos)
  have r: "round_real p lo hi x = of_int (round_even (x / ?u)) * ?u"
    by (simp add: round_real_def Let_def)
  show "x \<le> of_int m * pow2 g \<Longrightarrow> round_real p lo hi x \<le> of_int m * pow2 g"
  proof -
    assume "x \<le> of_int m * pow2 g"
    then have "x \<le> of_int (m * ?k) * ?u" using k by (simp add: mult.assoc)
    then have "x / ?u \<le> of_int (m * ?k)" using u by (simp add: pos_divide_le_eq)
    then have "round_even (x / ?u) \<le> m * ?k" by (rule round_even_le)
    then have "real_of_int (round_even (x / ?u)) \<le> of_int (m * ?k)" by linarith
    then have "of_int (round_even (x / ?u)) * ?u \<le> of_int (m * ?k) * ?u"
      using u by (simp only: mult_le_cancel_right_pos)
    then show ?thesis using r k by (simp add: mult.assoc)
  qed
  show "of_int m * pow2 g \<le> x \<Longrightarrow> of_int m * pow2 g \<le> round_real p lo hi x"
  proof -
    assume "of_int m * pow2 g \<le> x"
    then have "of_int (m * ?k) * ?u \<le> x" using k by (simp add: mult.assoc)
    then have "of_int (m * ?k) \<le> x / ?u" using u by (simp add: pos_le_divide_eq)
    then have "m * ?k \<le> round_even (x / ?u)" by (rule round_even_ge)
    then have "real_of_int (m * ?k) \<le> of_int (round_even (x / ?u))" by linarith
    then have "of_int (m * ?k) * ?u \<le> of_int (round_even (x / ?u)) * ?u"
      using u by (simp only: mult_le_cancel_right_pos)
    then show ?thesis using r k by (simp add: mult.assoc)
  qed
qed

lemma round_real_exact:
  assumes "lo \<le> g + int p - 1" "g + int p - 1 \<le> hi" "\<bar>of_int m * pow2 g\<bar> < pow2 (g + int p)"
  shows "round_real p lo hi (of_int m * pow2 g) = of_int m * pow2 g"
  using round_real_grid[OF assms, of m] by simp

lemma round_ieee_finite:
  assumes "lo \<le> g + int p - 1" "g + int p \<le> hi" "\<bar>x\<bar> < pow2 (g + int p)"
  shows "round_ieee p lo hi x = Finite (round_real p lo hi x)"
proof -
  have h: "g + int p - 1 \<le> hi" using assms(2) by simp
  have pp: "pow2 (g + int p) = of_int (2 ^ p) * pow2 g"
    using pow2_ratio[of g "g + int p"] by simp
  have up: "x \<le> of_int (2 ^ p) * pow2 g" using assms(3) pp by simp
  have "- pow2 (g + int p) \<le> x" using assms(3) by simp
  then have dn: "of_int (- (2 ^ p)) * pow2 g \<le> x" using pp by simp
  from round_real_grid(1)[OF assms(1) h assms(3) up]
  have a: "round_real p lo hi x \<le> pow2 (g + int p)" using pp by simp
  from round_real_grid(2)[OF assms(1) h assms(3) dn]
  have b: "- pow2 (g + int p) \<le> round_real p lo hi x" using pp by simp
  have "pow2 (g + int p) < pow2 (hi + 1)" using assms(2) by (intro pow2_less) simp
  with a b show ?thesis by (simp add: round_ieee_def Let_def)
qed


text \<open>Rounding keeps a number on its side of 0 and of 1.\<close>

lemma find_none_upto: "\<forall>e. lo \<le> e \<and> e \<le> hi \<longrightarrow> \<not> P e \<Longrightarrow> find P [lo..hi] = None"
  by (simp add: find_None_iff)

lemma binade_lower:
  assumes "lo \<le> hi" "lo < binade lo hi x"
  shows "pow2 (binade lo hi x) \<le> \<bar>x\<bar>"
proof (cases "\<bar>x\<bar> < pow2 (hi + 1)")
  case True
  from binade_upper(3)[OF assms(1) _ True] assms(2) show ?thesis by simp
next
  case False
  have "\<forall>e. lo \<le> e \<and> e \<le> hi \<longrightarrow> \<not> \<bar>x\<bar> < pow2 (e + 1)"
  proof (intro allI impI)
    fix e assume "lo \<le> e \<and> e \<le> hi"
    then have "pow2 (e + 1) \<le> pow2 (hi + 1)" by (intro pow2_mono) simp
    with False show "\<not> \<bar>x\<bar> < pow2 (e + 1)" by simp
  qed
  then have "find (\<lambda>e. \<bar>x\<bar> < pow2 (e + 1)) [lo..hi] = None" by (rule find_none_upto)
  then have "binade lo hi x = hi" by (simp add: binade_def)
  moreover have "pow2 hi \<le> pow2 (hi + 1)" by (intro pow2_mono) simp
  ultimately show ?thesis using False by simp
qed

lemma round_real_nonpos: "x \<le> 0 \<Longrightarrow> round_real p lo hi x \<le> 0"
proof -
  assume x: "x \<le> 0"
  let ?u = "pow2 (binade lo hi x - int p + 1)"
  have u: "0 < ?u" by (rule pow2_pos)
  have "x / ?u \<le> of_int 0" using x u by (simp add: divide_nonpos_pos)
  then have "round_even (x / ?u) \<le> 0" by (rule round_even_le)
  then have "real_of_int (round_even (x / ?u)) \<le> 0" by simp
  then have "of_int (round_even (x / ?u)) * ?u \<le> 0" using u by (simp add: mult_nonpos_nonneg)
  then show ?thesis by (simp add: round_real_def Let_def)
qed

lemma round_real_one:
  assumes "lo \<le> 0" "0 \<le> hi" "0 < p" "1 \<le> x"
  shows "1 \<le> round_real p lo hi x"
proof -
  let ?e = "binade lo hi x"
  let ?a = "?e - int p + 1"
  let ?u = "pow2 ?a"
  have u: "0 < ?u" by (rule pow2_pos)
  have r: "round_real p lo hi x = of_int (round_even (x / ?u)) * ?u"
    by (simp add: round_real_def Let_def)
  show ?thesis
  proof (cases "?a \<le> 0")
    case True
    let ?k = "2 ^ nat (0 - ?a) :: int"
    from pow2_ratio[OF True] have k: "1 = of_int ?k * ?u" by (simp add: pow2_def)
    then have "of_int ?k * ?u \<le> x" using assms(4) by simp
    then have "of_int ?k \<le> x / ?u" using u by (simp add: pos_le_divide_eq)
    then have "?k \<le> round_even (x / ?u)" by (rule round_even_ge)
    then have "real_of_int ?k \<le> of_int (round_even (x / ?u))" by linarith
    then have "of_int ?k * ?u \<le> of_int (round_even (x / ?u)) * ?u"
      using u by (simp only: mult_le_cancel_right_pos)
    with k r show ?thesis by simp
  next
    case False
    then have pos: "0 < ?a" by simp
    then have "lo < ?e" using assms(1,3) by linarith
    from binade_lower[OF _ this] assms(1,2) have "pow2 ?e \<le> \<bar>x\<bar>" by simp
    then have "pow2 ?e \<le> x" using assms(4) by simp
    moreover have "?u \<le> pow2 ?e" using assms(3) by (intro pow2_mono) simp
    ultimately have "of_int 1 * ?u \<le> x" by simp
    then have "of_int 1 \<le> x / ?u" using u by (simp add: pos_le_divide_eq)
    then have "1 \<le> round_even (x / ?u)" by (rule round_even_ge)
    then have n: "1 \<le> real_of_int (round_even (x / ?u))" by linarith
    have "pow2 0 \<le> ?u" using pos by (intro pow2_mono) simp
    then have "1 \<le> ?u" by (simp add: pow2_def)
    with n have "1 * 1 \<le> real_of_int (round_even (x / ?u)) * ?u"
      by (intro mult_mono) simp_all
    then show ?thesis using r by simp
  qed
qed

text \<open>binary32 has 24 bits of precision and exponents from -126 to 127, binary64 has 53
  bits and exponents from -1022 to 1023. The operations take the rounding of the format
  as a parameter.\<close>

definition round_float :: "real \<Rightarrow> ieee" where
  "round_float = round_ieee 24 (- 126) 127"

definition round_double :: "real \<Rightarrow> ieee" where
  "round_double = round_ieee 53 (- 1022) 1023"

fun ieee_neg :: "ieee \<Rightarrow> ieee" where
  "ieee_neg (Finite a) = Finite (- a)"
| "ieee_neg PlusInf = MinusInf"
| "ieee_neg MinusInf = PlusInf"
| "ieee_neg NaN = NaN"

fun ieee_add :: "(real \<Rightarrow> ieee) \<Rightarrow> ieee \<Rightarrow> ieee \<Rightarrow> ieee" where
  "ieee_add rnd (Finite a) (Finite b) = rnd (a + b)"
| "ieee_add rnd NaN y = NaN"
| "ieee_add rnd x NaN = NaN"
| "ieee_add rnd PlusInf MinusInf = NaN"
| "ieee_add rnd MinusInf PlusInf = NaN"
| "ieee_add rnd PlusInf y = PlusInf"
| "ieee_add rnd x PlusInf = PlusInf"
| "ieee_add rnd MinusInf y = MinusInf"
| "ieee_add rnd x MinusInf = MinusInf"

definition ieee_sub :: "(real \<Rightarrow> ieee) \<Rightarrow> ieee \<Rightarrow> ieee \<Rightarrow> ieee" where
  "ieee_sub rnd x y = ieee_add rnd x (ieee_neg y)"

fun ieee_mul :: "(real \<Rightarrow> ieee) \<Rightarrow> ieee \<Rightarrow> ieee \<Rightarrow> ieee" where
  "ieee_mul rnd (Finite a) (Finite b) = rnd (a * b)"
| "ieee_mul rnd NaN y = NaN"
| "ieee_mul rnd x NaN = NaN"
| "ieee_mul rnd (Finite a) PlusInf = (if a = 0 then NaN else if 0 < a then PlusInf else MinusInf)"
| "ieee_mul rnd (Finite a) MinusInf = (if a = 0 then NaN else if 0 < a then MinusInf else PlusInf)"
| "ieee_mul rnd PlusInf (Finite b) = (if b = 0 then NaN else if 0 < b then PlusInf else MinusInf)"
| "ieee_mul rnd MinusInf (Finite b) = (if b = 0 then NaN else if 0 < b then MinusInf else PlusInf)"
| "ieee_mul rnd PlusInf PlusInf = PlusInf"
| "ieee_mul rnd MinusInf MinusInf = PlusInf"
| "ieee_mul rnd PlusInf MinusInf = MinusInf"
| "ieee_mul rnd MinusInf PlusInf = MinusInf"

text \<open>Division; a zero divisor is taken as the positive zero.\<close>

fun ieee_div :: "(real \<Rightarrow> ieee) \<Rightarrow> ieee \<Rightarrow> ieee \<Rightarrow> ieee" where
  "ieee_div rnd (Finite a) (Finite b) =
     (if b = 0 then (if a = 0 then NaN else if 0 < a then PlusInf else MinusInf)
      else rnd (a / b))"
| "ieee_div rnd NaN y = NaN"
| "ieee_div rnd x NaN = NaN"
| "ieee_div rnd (Finite a) y = Finite 0"
| "ieee_div rnd PlusInf (Finite b) = (if 0 \<le> b then PlusInf else MinusInf)"
| "ieee_div rnd MinusInf (Finite b) = (if 0 \<le> b then MinusInf else PlusInf)"
| "ieee_div rnd x y = NaN"

fun ieee_sqrt :: "(real \<Rightarrow> ieee) \<Rightarrow> ieee \<Rightarrow> ieee" where
  "ieee_sqrt rnd (Finite a) = (if a < 0 then NaN else rnd (sqrt a))"
| "ieee_sqrt rnd PlusInf = PlusInf"
| "ieee_sqrt rnd x = NaN"

text \<open>The comparison \<^verbatim>\<open><\<close>: false whenever an operand is a NaN.\<close>

fun ieee_less :: "ieee \<Rightarrow> ieee \<Rightarrow> bool" where
  "ieee_less (Finite a) (Finite b) = (a < b)"
| "ieee_less NaN y = False"
| "ieee_less x NaN = False"
| "ieee_less MinusInf MinusInf = False"
| "ieee_less MinusInf y = True"
| "ieee_less x MinusInf = False"
| "ieee_less PlusInf y = False"
| "ieee_less x PlusInf = True"

text \<open>The operations of \<^verbatim>\<open>float\<close>, and the conversions: of an \<^verbatim>\<open>int\<close> to either
  format, and of a \<^verbatim>\<open>double\<close> to \<^verbatim>\<open>float\<close>. A \<^verbatim>\<open>float\<close> converts to \<^verbatim>\<open>double\<close> without
  a change of value.\<close>

definition float_add :: "ieee \<Rightarrow> ieee \<Rightarrow> ieee" where
  "float_add = ieee_add round_float"

definition float_sub :: "ieee \<Rightarrow> ieee \<Rightarrow> ieee" where
  "float_sub = ieee_sub round_float"

definition float_mul :: "ieee \<Rightarrow> ieee \<Rightarrow> ieee" where
  "float_mul = ieee_mul round_float"

definition float_of_int :: "int \<Rightarrow> ieee" where
  "float_of_int n = round_float (of_int n)"

definition double_of_int :: "int \<Rightarrow> ieee" where
  "double_of_int n = round_double (of_int n)"

definition double_to_float :: "ieee \<Rightarrow> ieee" where
  "double_to_float x = (case x of Finite a \<Rightarrow> round_float a | _ \<Rightarrow> x)"

text \<open>The operations of \<^verbatim>\<open>double\<close>.\<close>

definition double_add :: "ieee \<Rightarrow> ieee \<Rightarrow> ieee" where
  "double_add = ieee_add round_double"

definition double_sub :: "ieee \<Rightarrow> ieee \<Rightarrow> ieee" where
  "double_sub = ieee_sub round_double"

definition double_mul :: "ieee \<Rightarrow> ieee \<Rightarrow> ieee" where
  "double_mul = ieee_mul round_double"

definition double_div :: "ieee \<Rightarrow> ieee \<Rightarrow> ieee" where
  "double_div = ieee_div round_double"

definition double_sqrt :: "ieee \<Rightarrow> ieee" where
  "double_sqrt = ieee_sqrt round_double"

subsection \<open>Facts about rounding\<close>

lemma ieee_less_trans: "ieee_less x y \<Longrightarrow> ieee_less y z \<Longrightarrow> ieee_less x z"
  by (cases x; cases y; cases z) simp_all

lemma ieee_less_irrefl: "\<not> ieee_less x x"
  by (cases x) simp_all

lemma ieee_less_NaN: "ieee_less x y \<Longrightarrow> x \<noteq> NaN \<and> y \<noteq> NaN"
  by (cases x; cases y) simp_all

lemma ieee_less_linear: "x \<noteq> NaN \<Longrightarrow> y \<noteq> NaN \<Longrightarrow> ieee_less x y \<or> x = y \<or> ieee_less y x"
  by (cases x; cases y) auto

lemma pow2_numeral:
  "pow2 0 = 1" "pow2 24 = 16777216" "pow2 53 = 9007199254740992"
  by (simp_all add: pow2_def)

lemma float_grid:
  assumes "- 149 \<le> g" "g \<le> 103" "\<bar>x\<bar> < pow2 (g + 24)"
  shows "\<exists>y. round_float x = Finite y
     \<and> (\<forall>m. x \<le> of_int m * pow2 g \<longrightarrow> y \<le> of_int m * pow2 g)
     \<and> (\<forall>m. of_int m * pow2 g \<le> x \<longrightarrow> of_int m * pow2 g \<le> y)"
proof -
  have a: "- 126 \<le> g + int 24 - 1" "g + int 24 - 1 \<le> 127" "g + int 24 \<le> 127"
    "\<bar>x\<bar> < pow2 (g + int 24)"
    using assms by simp_all
  from round_ieee_finite[OF a(1,3,4)] round_real_grid[OF a(1,2,4)]
  show ?thesis by (simp add: round_float_def)
qed

lemma double_grid:
  assumes "- 1074 \<le> g" "g \<le> 970" "\<bar>x\<bar> < pow2 (g + 53)"
  shows "\<exists>y. round_double x = Finite y
     \<and> (\<forall>m. x \<le> of_int m * pow2 g \<longrightarrow> y \<le> of_int m * pow2 g)
     \<and> (\<forall>m. of_int m * pow2 g \<le> x \<longrightarrow> of_int m * pow2 g \<le> y)"
proof -
  have a: "- 1022 \<le> g + int 53 - 1" "g + int 53 - 1 \<le> 1023" "g + int 53 \<le> 1023"
    "\<bar>x\<bar> < pow2 (g + int 53)"
    using assms by simp_all
  from round_ieee_finite[OF a(1,3,4)] round_real_grid[OF a(1,2,4)]
  show ?thesis by (simp add: round_double_def)
qed

lemma float_exact:
  assumes "- 149 \<le> g" "g \<le> 103" "\<bar>m\<bar> < 16777216"
  shows "round_float (of_int m * pow2 g) = Finite (of_int m * pow2 g)"
proof -
  have "pow2 (g + 24) = 16777216 * pow2 g" by (simp add: pow2_add pow2_numeral)
  moreover have "\<bar>real_of_int m\<bar> < 16777216" using assms(3) by linarith
  ultimately have "\<bar>of_int m * pow2 g\<bar> < pow2 (g + 24)"
    using pow2_pos[of g] by (simp add: abs_mult)
  from float_grid[OF assms(1,2) this] obtain y where
    y: "round_float (of_int m * pow2 g) = Finite y"
    "\<forall>k. of_int m * pow2 g \<le> of_int k * pow2 g \<longrightarrow> y \<le> of_int k * pow2 g"
    "\<forall>k. of_int k * pow2 g \<le> of_int m * pow2 g \<longrightarrow> of_int k * pow2 g \<le> y"
    by blast
  from y(2,3) have "y = of_int m * pow2 g" by (intro antisym) simp_all
  with y(1) show ?thesis by simp
qed

lemma double_exact:
  assumes "- 1074 \<le> g" "g \<le> 970" "\<bar>m\<bar> < 9007199254740992"
  shows "round_double (of_int m * pow2 g) = Finite (of_int m * pow2 g)"
proof -
  have "pow2 (g + 53) = 9007199254740992 * pow2 g" by (simp add: pow2_add pow2_numeral)
  moreover have "\<bar>real_of_int m\<bar> < 9007199254740992" using assms(3) by linarith
  ultimately have "\<bar>of_int m * pow2 g\<bar> < pow2 (g + 53)"
    using pow2_pos[of g] by (simp add: abs_mult)
  from double_grid[OF assms(1,2) this] obtain y where
    y: "round_double (of_int m * pow2 g) = Finite y"
    "\<forall>k. of_int m * pow2 g \<le> of_int k * pow2 g \<longrightarrow> y \<le> of_int k * pow2 g"
    "\<forall>k. of_int k * pow2 g \<le> of_int m * pow2 g \<longrightarrow> of_int k * pow2 g \<le> y"
    by blast
  from y(2,3) have "y = of_int m * pow2 g" by (intro antisym) simp_all
  with y(1) show ?thesis by simp
qed

lemma float_int:
  assumes "\<bar>m\<bar> < 16777216"
  shows "round_float (of_int m) = Finite (of_int m)"
  using float_exact[of 0 m] assms by (simp add: pow2_numeral)

lemma double_int:
  assumes "\<bar>m\<bar> < 9007199254740992"
  shows "round_double (of_int m) = Finite (of_int m)"
  using double_exact[of 0 m] assms by (simp add: pow2_numeral)

lemma float_between:
  assumes "of_int a \<le> x" "x \<le> of_int b" "\<bar>a\<bar> < 16777216" "\<bar>b\<bar> < 16777216"
  shows "\<exists>y. round_float x = Finite y \<and> of_int a \<le> y \<and> y \<le> of_int b"
proof -
  have "\<bar>x\<bar> < 16777216" using assms by linarith
  then have "\<bar>x\<bar> < pow2 (0 + 24)" by (simp add: pow2_numeral)
  from float_grid[OF _ _ this] obtain y where
    y: "round_float x = Finite y" "\<forall>m. x \<le> of_int m * pow2 0 \<longrightarrow> y \<le> of_int m * pow2 0"
    "\<forall>m. of_int m * pow2 0 \<le> x \<longrightarrow> of_int m * pow2 0 \<le> y"
    by auto
  from y(2) assms(2) have "y \<le> of_int b" by (simp add: pow2_numeral)
  moreover from y(3) assms(1) have "of_int a \<le> y" by (simp add: pow2_numeral)
  ultimately show ?thesis using y(1) by simp
qed

lemma double_between:
  assumes "of_int a \<le> x" "x \<le> of_int b" "\<bar>a\<bar> < 9007199254740992" "\<bar>b\<bar> < 9007199254740992"
  shows "\<exists>y. round_double x = Finite y \<and> of_int a \<le> y \<and> y \<le> of_int b"
proof -
  have "\<bar>x\<bar> < 9007199254740992" using assms by linarith
  then have "\<bar>x\<bar> < pow2 (0 + 53)" by (simp add: pow2_numeral)
  from double_grid[OF _ _ this] obtain y where
    y: "round_double x = Finite y" "\<forall>m. x \<le> of_int m * pow2 0 \<longrightarrow> y \<le> of_int m * pow2 0"
    "\<forall>m. of_int m * pow2 0 \<le> x \<longrightarrow> of_int m * pow2 0 \<le> y"
    by auto
  from y(2) assms(2) have "y \<le> of_int b" by (simp add: pow2_numeral)
  moreover from y(3) assms(1) have "of_int a \<le> y" by (simp add: pow2_numeral)
  ultimately show ?thesis using y(1) by simp
qed

text \<open>The \<^verbatim>\<open>double\<close> nearest to 0.999999 lies below 1.\<close>

lemma budget: "\<exists>y. round_double (999999 / 1000000) = Finite y \<and> 0 \<le> y \<and> y < 1"
proof -
  have "\<bar>999999 / 1000000 :: real\<bar> < pow2 (- 20 + 53)" by (simp add: pow2_def)
  from double_grid[OF _ _ this] obtain y where
    y: "round_double (999999 / 1000000) = Finite y"
    "\<forall>m. 999999 / 1000000 \<le> of_int m * pow2 (- 20) \<longrightarrow> y \<le> of_int m * pow2 (- 20)"
    "\<forall>m. of_int m * pow2 (- 20) \<le> 999999 / 1000000 \<longrightarrow> of_int m * pow2 (- 20) \<le> y"
    by auto
  have "999999 / 1000000 \<le> of_int 1048575 * pow2 (- 20)" by (simp add: pow2_def)
  with y(2) have "y \<le> of_int 1048575 * pow2 (- 20)" by blast
  then have "y < 1" by (simp add: pow2_def)
  moreover have "of_int 0 * pow2 (- 20) \<le> (999999 / 1000000 :: real)" by simp
  with y(3) have "of_int 0 * pow2 (- 20) \<le> y" by blast
  then have "0 \<le> y" by simp
  ultimately show ?thesis using y(1) by blast
qed

text \<open>Rounding where the binade is known.\<close>

lemma round_float_at:
  assumes "- 126 \<le> e" "e \<le> 127" "e = - 126 \<or> pow2 e \<le> \<bar>x\<bar>" "\<bar>x\<bar> < pow2 (e + 1)"
    and "round_even (x / pow2 (e - 23)) = n" "\<bar>n\<bar> \<le> 16777216" "e < 127"
  shows "round_float x = Finite (of_int n * pow2 (e - 23))"
proof -
  have b: "binade (- 126) 127 x = e" by (rule binade_eq[OF assms(1-4)])
  have r: "round_real 24 (- 126) 127 x = of_int n * pow2 (e - 23)"
    using b assms(5) by (simp add: round_real_def Let_def)
  have "\<bar>real_of_int n\<bar> \<le> 16777216" using assms(6) by linarith
  then have "\<bar>of_int n * pow2 (e - 23)\<bar> \<le> 16777216 * pow2 (e - 23)"
    using pow2_pos[of "e - 23"] by (simp add: abs_mult)
  also have "16777216 * pow2 (e - 23) = pow2 (e + 1)"
    using pow2_add[of 24 "e - 23"] by (simp add: pow2_numeral add.commute)
  also have "pow2 (e + 1) < pow2 128" using assms(7) by (intro pow2_less) simp
  finally have "\<bar>of_int n * pow2 (e - 23)\<bar> < pow2 128" .
  then have "\<not> pow2 (127 + 1) \<le> of_int n * pow2 (e - 23)"
    "\<not> of_int n * pow2 (e - 23) \<le> - pow2 (127 + 1)"
    by (simp_all add: abs_less_iff)
  then show ?thesis using r unfolding round_float_def round_ieee_def Let_def by simp
qed


section \<open>Tuple-network TD agent (project2/agent.h, class tuple_player)\<close>

text \<open>
  The board of the tile game (board.h) is not part of the sources. A board is taken as
  the list of its 16 cells in the order of the comment in agent.h (row major, 0..15);
  the accessor \<^verbatim>\<open>after(i)\<close> is \<open>b ! i\<close>. Cell values are tile indices.
  A \<^verbatim>\<open>float\<close> is a value of \<open>ieee\<close> and its arithmetic is that of binary32:
  \<open>float_add\<close>, \<open>float_sub\<close>, \<open>float_mul\<close>, with \<open>float_of_int\<close> for the conversion of an
  \<^verbatim>\<open>int\<close> operand.
\<close>

type_synonym board = "nat list"

text \<open>\<^verbatim>\<open>struct state { board after; int reward; }\<close>\<close>

record state =
  after :: board
  reward :: int

text \<open>
  A weight table (weight.h, not part of the sources) is a dense array of floats: its
  length and its contents. Reading or writing past the length is undefined behaviour in
  the C++; the model makes it the result \<open>None\<close>.
\<close>

record weight =
  wsize :: nat
  wvalue :: "nat \<Rightarrow> ieee"

type_synonym network = "weight list"

definition net_read :: "network \<Rightarrow> nat \<Rightarrow> nat \<Rightarrow> ieee option" where
  "net_read net j x =
     (if j < length net \<and> x < wsize (net ! j) then Some (wvalue (net ! j) x) else None)"

definition net_add :: "network \<Rightarrow> nat \<Rightarrow> nat \<Rightarrow> ieee \<Rightarrow> network option" where
  "net_add net j x d =
     (if j < length net \<and> x < wsize (net ! j)
      then Some (net[j := (net ! j)\<lparr>wvalue := (wvalue (net ! j))(x := float_add (wvalue (net ! j) x) d)\<rparr>])
      else None)"

text \<open>
  \<^verbatim>\<open>int network_index[64][6]\<close>, row by row. Row 26 has five initialisers in the
  source, so its sixth element is the zero of aggregate initialisation.
\<close>

definition network_index :: "nat list list" where
  "network_index =
   [[0,1,2,4,5,6], [2,3,6,7,10,11], [9,10,11,13,14,15], [4,5,8,9,12,13],
    [8,9,10,12,13,14], [0,1,4,5,8,9], [1,2,3,5,6,7], [6,7,10,11,14,15],
    [1,2,5,6,9,13], [4,5,6,7,10,11], [2,6,10,14,13,9], [4,5,8,9,10,11],
    [1,2,5,6,10,14], [6,7,8,9,10,11], [1,5,9,10,13,14], [4,5,6,7,8,9],
    [0,1,2,3,4,5], [2,6,3,7,11,15], [12,13,14,15,10,11], [0,4,8,12,9,13],
    [8,9,12,13,14,15], [0,1,4,5,8,12], [0,1,2,3,6,7], [3,7,10,11,14,15],
    [0,1,6,7,8,11], [3,7,6,9,10,14], [5,8,9,10,15,0], [1,5,6,8,9,12],
    [6,9,10,11,12,13], [0,4,5,9,10,13], [2,3,4,5,6,9], [2,5,6,10,11,15],
    [0,1,2,5,9,10], [3,5,6,7,9,11], [5,6,10,13,14,15], [4,6,8,9,10,12],
    [5,6,9,12,13,14], [0,4,5,6,8,10], [1,2,3,6,9,10], [5,7,9,10,11,15],
    [0,1,5,9,13,14], [3,4,5,6,7,8], [1,2,6,10,14,15], [7,8,9,10,11,12],
    [1,2,5,9,12,13], [0,4,5,6,7,11], [2,3,6,10,13,14], [4,8,9,10,11,15],
    [0,1,5,8,9,13], [1,3,4,5,6,7], [2,6,7,10,14,15], [8,9,10,11,12,14],
    [1,4,5,9,12,13], [0,2,4,5,6,7], [2,3,6,10,11,14], [8,9,10,11,13,15],
    [0,1,2,4,6,10], [2,3,7,9,10,11], [5,9,11,13,14,15], [4,5,6,8,12,13],
    [2,6,8,10,12,14], [0,1,4,8,9,10], [1,2,3,5,7,9], [5,6,7,11,14,15]]"

text \<open>\<^verbatim>\<open>int evaluate_feature(board& after, int net_index[6])\<close>. The index is a
  natural number: for cells below 16, the boards of the data model, it stays below \<open>2^24\<close>
  and the machine arithmetic of the source does not overflow.\<close>

definition evaluate_feature :: "board \<Rightarrow> nat list \<Rightarrow> nat" where
  "evaluate_feature b net_index =
     b ! (net_index ! 0) * 16 * 16 * 16 * 16 * 16 + b ! (net_index ! 1) * 16 * 16 * 16 * 16
     + b ! (net_index ! 2) * 16 * 16 * 16
     + b ! (net_index ! 3) * 16 * 16 + b ! (net_index ! 4) * 16 + b ! (net_index ! 5)"

text \<open>Reading the six base-16 digits of an index back, most significant first.\<close>

definition decode_feature :: "nat \<Rightarrow> nat list" where
  "decode_feature x =
     [x div 1048576 mod 16, x div 65536 mod 16, x div 4096 mod 16,
      x div 256 mod 16, x div 16 mod 16, x mod 16]"

text \<open>The six cell values a pattern reads from a board.\<close>

definition pattern_cells :: "board \<Rightarrow> nat list \<Rightarrow> nat list" where
  "pattern_cells b net_index =
     [b ! (net_index ! 0), b ! (net_index ! 1), b ! (net_index ! 2),
      b ! (net_index ! 3), b ! (net_index ! 4), b ! (net_index ! 5)]"

text \<open>
  \<^verbatim>\<open>float evaluate_score(board& after)\<close>: the loop over \<open>i = 0..63\<close> with
  \<open>j = i / 8\<close>, as a recursion over the remaining values of \<open>i\<close>.
\<close>

fun evaluate_loop :: "network \<Rightarrow> board \<Rightarrow> nat list \<Rightarrow> ieee \<Rightarrow> ieee option" where
  "evaluate_loop net b [] score = Some score"
| "evaluate_loop net b (i # rest) score =
     (case net_read net (i div 8) (evaluate_feature b (network_index ! i)) of
        None \<Rightarrow> None
      | Some w \<Rightarrow> evaluate_loop net b rest (float_add score w))"

definition evaluate_score :: "network \<Rightarrow> board \<Rightarrow> ieee option" where
  "evaluate_score net b = evaluate_loop net b [0..<64] (float_of_int 0)"

text \<open>\<^verbatim>\<open>void train_weights(board& after, float target)\<close>, with the learning rate
  \<open>alpha\<close> of the agent passed explicitly.\<close>

fun train_loop :: "network \<Rightarrow> board \<Rightarrow> ieee \<Rightarrow> nat list \<Rightarrow> network option" where
  "train_loop net b adjust_value [] = Some net"
| "train_loop net b adjust_value (i # rest) =
     (case net_add net (i div 8) (evaluate_feature b (network_index ! i)) adjust_value of
        None \<Rightarrow> None
      | Some net' \<Rightarrow> train_loop net' b adjust_value rest)"

definition train_weights :: "ieee \<Rightarrow> network \<Rightarrow> board \<Rightarrow> ieee \<Rightarrow> network option" where
  "train_weights alpha net b target =
     (case evaluate_score net b of
        None \<Rightarrow> None
      | Some temp \<Rightarrow>
          (let err = float_sub target temp; adjust_value = float_mul err alpha
           in train_loop net b adjust_value [0..<64]))"

text \<open>
  The data model of the network: at least the 8 tables that \<open>j = i / 8\<close> addresses,
  each of \<open>16^6 = 16777216\<close> entries or more; and of a board: 16 cells, each a tile
  index below 16.
\<close>

definition net_ok :: "network \<Rightarrow> bool" where
  "net_ok net = (8 \<le> length net \<and> list_all (\<lambda>w. 16777216 \<le> wsize w) (take 8 net))"

definition board_ok :: "board \<Rightarrow> bool" where
  "board_ok b = (length b = 16 \<and> list_all (\<lambda>v. v < 16) b)"

subsection \<open>Feature indices\<close>

lemma horner_step:
  fixes y f :: nat
  assumes "f < 16"
  shows "(y * 16 + f) div 16 = y" "(y * 16 + f) mod 16 = f"
  using assms by simp_all

lemma horner6:
  fixes a b c d e f :: nat
  shows "a * 16 * 16 * 16 * 16 * 16 + b * 16 * 16 * 16 * 16 + c * 16 * 16 * 16
           + d * 16 * 16 + e * 16 + f
         = ((((a * 16 + b) * 16 + c) * 16 + d) * 16 + e) * 16 + f"
  by (simp add: algebra_simps)

lemma div_chain:
  fixes x :: nat
  shows "x div 1048576 = x div 16 div 16 div 16 div 16 div 16"
    "x div 65536 = x div 16 div 16 div 16 div 16"
    "x div 4096 = x div 16 div 16 div 16"
    "x div 256 = x div 16 div 16"
  by (simp_all add: div_mult2_eq[symmetric])

lemma digits6:
  fixes a b c d e f :: nat
  assumes "a < 16" "b < 16" "c < 16" "d < 16" "e < 16" "f < 16"
  defines "x \<equiv> a * 16 * 16 * 16 * 16 * 16 + b * 16 * 16 * 16 * 16 + c * 16 * 16 * 16
                 + d * 16 * 16 + e * 16 + f"
  shows "x div 1048576 mod 16 = a" "x div 65536 mod 16 = b" "x div 4096 mod 16 = c"
    "x div 256 mod 16 = d" "x div 16 mod 16 = e" "x mod 16 = f"
proof -
  have x: "x = ((((a * 16 + b) * 16 + c) * 16 + d) * 16 + e) * 16 + f"
    unfolding x_def by (rule horner6)
  show "x div 1048576 mod 16 = a" "x div 65536 mod 16 = b" "x div 4096 mod 16 = c"
    "x div 256 mod 16 = d" "x div 16 mod 16 = e" "x mod 16 = f"
    unfolding div_chain x using assms by (simp_all only: horner_step mod_less)
qed

lemma decode_evaluate_feature:
  assumes "list_all (\<lambda>v. v < 16) (pattern_cells b p)"
  shows "decode_feature (evaluate_feature b p) = pattern_cells b p"
proof -
  from assms have c: "b ! (p ! 0) < 16" "b ! (p ! 1) < 16" "b ! (p ! 2) < 16"
    "b ! (p ! 3) < 16" "b ! (p ! 4) < 16" "b ! (p ! 5) < 16"
    by (simp_all add: pattern_cells_def)
  show ?thesis
    unfolding decode_feature_def evaluate_feature_def pattern_cells_def
    by (simp only: digits6[OF c])
qed

lemma network_index_rows:
  "length network_index = 64"
  "list_all (\<lambda>p. length p = 6 \<and> list_all (\<lambda>k. k < 16) p) network_index"
  by (simp_all add: network_index_def)

lemma network_index_row:
  assumes "i < 64"
  shows "length (network_index ! i) = 6" "list_all (\<lambda>k. k < 16) (network_index ! i)"
  using assms network_index_rows by (simp_all add: list_all_length)

lemma board_ok_cell:
  assumes "board_ok b" "k < 16"
  shows "b ! k < 16"
  using assms by (simp add: board_ok_def list_all_length)

lemma pattern_cells_ok:
  assumes "board_ok b" "i < 64"
  shows "list_all (\<lambda>v. v < 16) (pattern_cells b (network_index ! i))"
proof -
  have "\<forall>k<6. network_index ! i ! k < 16"
    using network_index_row[OF assms(2)] by (simp add: list_all_length)
  then have "\<forall>k<6. b ! (network_index ! i ! k) < 16"
    using board_ok_cell[OF assms(1)] by blast
  then show ?thesis
    by (simp add: pattern_cells_def)
qed

lemma evaluate_feature_less:
  assumes "list_all (\<lambda>v. v < 16) (pattern_cells b p)"
  shows "evaluate_feature b p < 16777216"
  using assms by (simp add: pattern_cells_def evaluate_feature_def)

lemma feature_less:
  assumes "board_ok b" "i < 64"
  shows "evaluate_feature b (network_index ! i) < 16777216"
  by (rule evaluate_feature_less[OF pattern_cells_ok[OF assms]])

text \<open>C8. \<open>evaluate_feature\<close> reads the six cells of a pattern as the base-16 digits of
  one index, most significant first. When the six cell values are below 16, decoding the
  digits of the index gives the six cell values back, and two indices are equal exactly
  when the six cell values are equal: the index is a function of the six values alone
  and is injective on them.\<close>

theorem evaluate_feature_roundtrip:
  assumes "list_all (\<lambda>v. v < 16) (pattern_cells b p)"
    and "list_all (\<lambda>v. v < 16) (pattern_cells b' p')"
  shows "evaluate_feature b p =
        b ! (p ! 0) * 16 ^ 5 + b ! (p ! 1) * 16 ^ 4 + b ! (p ! 2) * 16 ^ 3
        + b ! (p ! 3) * 16 ^ 2 + b ! (p ! 4) * 16 ^ 1 + b ! (p ! 5) * 16 ^ 0
    \<and> decode_feature (evaluate_feature b p) = pattern_cells b p
    \<and> ((evaluate_feature b p = evaluate_feature b' p') = (pattern_cells b p = pattern_cells b' p'))"
proof -
  have pos: "evaluate_feature b p =
        b ! (p ! 0) * 16 ^ 5 + b ! (p ! 1) * 16 ^ 4 + b ! (p ! 2) * 16 ^ 3
        + b ! (p ! 3) * 16 ^ 2 + b ! (p ! 4) * 16 ^ 1 + b ! (p ! 5) * 16 ^ 0"
    by (simp add: evaluate_feature_def)
  have dec: "decode_feature (evaluate_feature b p) = pattern_cells b p"
    by (rule decode_evaluate_feature[OF assms(1)])
  have dec': "decode_feature (evaluate_feature b' p') = pattern_cells b' p'"
    by (rule decode_evaluate_feature[OF assms(2)])
  have inj: "(evaluate_feature b p = evaluate_feature b' p') = (pattern_cells b p = pattern_cells b' p')"
  proof
    assume "evaluate_feature b p = evaluate_feature b' p'"
    then show "pattern_cells b p = pattern_cells b' p'"
      using dec dec' by simp
  next
    assume "pattern_cells b p = pattern_cells b' p'"
    then show "evaluate_feature b p = evaluate_feature b' p'"
      by (simp add: pattern_cells_def evaluate_feature_def)
  qed
  from pos dec inj show ?thesis by blast
qed

theorem evaluate_feature_roundtrip_witness:
  "list_all (\<lambda>v. v < 16) (pattern_cells [1,2,3,0, 0,3,0,0, 0,0,0,0, 0,0,0,6] [0,1,2,4,5,6])
   \<and> evaluate_feature [1,2,3,0, 0,3,0,0, 0,0,0,0, 0,0,0,6] [0,1,2,4,5,6] = 1191984
   \<and> decode_feature 1191984 = [1,2,3,0,3,0]"
  using evaluate_feature_roundtrip[of "[1,2,3,0, 0,3,0,0, 0,0,0,0, 0,0,0,6]" "[0,1,2,4,5,6]"
      "[1,2,3,0, 0,3,0,0, 0,0,0,0, 0,0,0,6]" "[0,1,2,4,5,6]"]
  by (simp add: pattern_cells_def evaluate_feature_def)


subsection \<open>Evaluation and training on a network of the data model\<close>

text \<open>The table entry that pattern \<open>i\<close> addresses on a board, and the sum that
  \<open>evaluate_score\<close> returns when no table access leaves its table: the 64 entries added
  from the left, each addition rounded.\<close>

definition table_value :: "network \<Rightarrow> board \<Rightarrow> nat \<Rightarrow> ieee" where
  "table_value net b i = wvalue (net ! (i div 8)) (evaluate_feature b (network_index ! i))"

definition score_sum :: "network \<Rightarrow> board \<Rightarrow> ieee" where
  "score_sum net b = foldl float_add (Finite 0) (map (table_value net b) [0..<64])"

text \<open>How many of the 64 patterns address the entry \<open>x\<close> of table \<open>j\<close>, and how many address
  the entry that pattern \<open>i\<close> addresses.\<close>

definition deposits :: "board \<Rightarrow> nat \<Rightarrow> nat \<Rightarrow> nat" where
  "deposits b j x =
     length (filter (\<lambda>k. k div 8 = j \<and> evaluate_feature b (network_index ! k) = x) [0..<64])"

definition shared :: "board \<Rightarrow> nat \<Rightarrow> nat" where
  "shared b i = deposits b (i div 8) (evaluate_feature b (network_index ! i))"

definition overlap :: "board \<Rightarrow> nat" where
  "overlap b = (\<Sum>i\<leftarrow>[0..<64]. shared b i)"

lemma float_of_int_exact: "\<bar>n\<bar> < 16777216 \<Longrightarrow> float_of_int n = Finite (of_int n)"
  by (simp add: float_of_int_def float_int)

lemma net_ok_table:
  assumes "net_ok net" "j < 8"
  shows "j < length net" "16777216 \<le> wsize (net ! j)"
  using assms by (simp_all add: net_ok_def list_all_length)

lemma net_read_ok:
  assumes "net_ok net" "board_ok b" "i < 64"
  shows "net_read net (i div 8) (evaluate_feature b (network_index ! i)) = Some (table_value net b i)"
proof -
  have j: "i div 8 < 8" using assms(3) by simp
  have "evaluate_feature b (network_index ! i) < wsize (net ! (i div 8))"
    using feature_less[OF assms(2,3)] net_ok_table(2)[OF assms(1) j] by linarith
  then show ?thesis
    using net_ok_table(1)[OF assms(1) j] by (simp add: net_read_def table_value_def)
qed

lemma evaluate_loop_ok:
  assumes "net_ok net" "board_ok b" "\<forall>i\<in>set xs. i < 64"
  shows "evaluate_loop net b xs s = Some (foldl float_add s (map (table_value net b) xs))"
  using assms(3)
proof (induction xs arbitrary: s)
  case Nil
  then show ?case by simp
next
  case (Cons i xs)
  then show ?case
    by (simp add: net_read_ok[OF assms(1,2)])
qed

lemma evaluate_score_ok:
  assumes "net_ok net" "board_ok b"
  shows "evaluate_score net b = Some (score_sum net b)"
  unfolding evaluate_score_def score_sum_def
  using evaluate_loop_ok[OF assms, of "[0..<64]" "Finite 0"] by (simp add: float_of_int_exact)

lemma net_add_ok:
  assumes "net_ok net" "board_ok b" "i < 64"
  shows "\<exists>net'. net_add net (i div 8) (evaluate_feature b (network_index ! i)) d = Some net'
     \<and> net_ok net' \<and> length net' = length net
     \<and> (\<forall>j<length net. \<forall>x. wvalue (net' ! j) x =
           (if j = i div 8 \<and> x = evaluate_feature b (network_index ! i)
            then float_add (wvalue (net ! j) x) d else wvalue (net ! j) x))"
proof -
  let ?j = "i div 8" and ?x = "evaluate_feature b (network_index ! i)"
  let ?net' = "net[?j := (net ! ?j)\<lparr>wvalue := (wvalue (net ! ?j))(?x := float_add (wvalue (net ! ?j) ?x) d)\<rparr>]"
  have j: "?j < 8" using assms(3) by simp
  have jl: "?j < length net" by (rule net_ok_table(1)[OF assms(1) j])
  have "?x < wsize (net ! ?j)"
    using feature_less[OF assms(2,3)] net_ok_table(2)[OF assms(1) j] by linarith
  then have eq: "net_add net ?j ?x d = Some ?net'"
    using jl by (simp add: net_add_def)
  have sz: "\<forall>k<length net. wsize (?net' ! k) = wsize (net ! k)"
    using jl by (simp add: nth_list_update)
  have ok: "net_ok ?net'"
    using assms(1) sz by (simp add: net_ok_def list_all_length)
  have val: "\<forall>k<length net. \<forall>x. wvalue (?net' ! k) x =
           (if k = ?j \<and> x = ?x then float_add (wvalue (net ! k) x) d else wvalue (net ! k) x)"
    using jl by (simp add: nth_list_update)
  show ?thesis using eq ok val by simp
qed

lemma train_loop_ok:
  assumes "board_ok b"
  shows "net_ok net \<Longrightarrow> \<forall>i\<in>set xs. i < 64 \<Longrightarrow>
    \<exists>net'. train_loop net b d xs = Some net' \<and> net_ok net' \<and> length net' = length net
     \<and> (\<forall>j<length net. \<forall>x. wvalue (net' ! j) x =
           ((\<lambda>w. float_add w d) ^^ length (filter (\<lambda>i. i div 8 = j
                 \<and> evaluate_feature b (network_index ! i) = x) xs)) (wvalue (net ! j) x))"
proof (induction xs arbitrary: net)
  case Nil
  then show ?case by simp
next
  case (Cons i xs)
  from Cons.prems have i: "i < 64" and xs: "\<forall>i\<in>set xs. i < 64" by simp_all
  from net_add_ok[OF Cons.prems(1) assms i, of d] obtain n1 where
    n1: "net_add net (i div 8) (evaluate_feature b (network_index ! i)) d = Some n1"
    and ok1: "net_ok n1" and len1: "length n1 = length net"
    and val1: "\<forall>j<length net. \<forall>x. wvalue (n1 ! j) x =
           (if j = i div 8 \<and> x = evaluate_feature b (network_index ! i)
            then float_add (wvalue (net ! j) x) d else wvalue (net ! j) x)"
    by blast
  from Cons.IH[OF ok1 xs] obtain n2 where
    n2: "train_loop n1 b d xs = Some n2" and ok2: "net_ok n2" and len2: "length n2 = length n1"
    and val2: "\<forall>j<length n1. \<forall>x. wvalue (n2 ! j) x =
           ((\<lambda>w. float_add w d) ^^ length (filter (\<lambda>i. i div 8 = j
                 \<and> evaluate_feature b (network_index ! i) = x) xs)) (wvalue (n1 ! j) x)"
    by blast
  have "\<forall>j<length net. \<forall>x. wvalue (n2 ! j) x =
           ((\<lambda>w. float_add w d) ^^ length (filter (\<lambda>i. i div 8 = j
                 \<and> evaluate_feature b (network_index ! i) = x) (i # xs))) (wvalue (net ! j) x)"
  proof (intro allI impI)
    fix j x assume j: "j < length net"
    let ?f = "\<lambda>w. float_add w d"
    let ?n = "length (filter (\<lambda>i. i div 8 = j \<and> evaluate_feature b (network_index ! i) = x) xs)"
    have a: "wvalue (n2 ! j) x = (?f ^^ ?n) (wvalue (n1 ! j) x)" using val2 j len1 by simp
    show "wvalue (n2 ! j) x =
           (?f ^^ length (filter (\<lambda>i. i div 8 = j
                 \<and> evaluate_feature b (network_index ! i) = x) (i # xs))) (wvalue (net ! j) x)"
    proof (cases "i div 8 = j \<and> evaluate_feature b (network_index ! i) = x")
      case True
      then have "wvalue (n1 ! j) x = ?f (wvalue (net ! j) x)" using val1 j by auto
      with a have "wvalue (n2 ! j) x = (?f ^^ Suc ?n) (wvalue (net ! j) x)"
        by (simp only: funpow_Suc_right o_apply)
      with True show ?thesis by simp
    next
      case False
      then have "wvalue (n1 ! j) x = wvalue (net ! j) x" using val1 j by auto
      with a False show ?thesis by auto
    qed
  qed
  then show ?case
    using n1 n2 ok2 len1 len2 by simp
qed

lemma train_weights_ok:
  assumes "net_ok net" "board_ok b"
  shows "\<exists>net'. train_weights alpha net b target = Some net' \<and> net_ok net'
     \<and> length net' = length net
     \<and> (\<forall>j<length net. \<forall>x. wvalue (net' ! j) x =
           ((\<lambda>w. float_add w (float_mul (float_sub target (score_sum net b)) alpha))
               ^^ deposits b j x) (wvalue (net ! j) x))"
proof -
  have "\<forall>i\<in>set [0..<64]. i < (64::nat)" by simp
  from train_loop_ok[OF assms(2,1) this, of "float_mul (float_sub target (score_sum net b)) alpha"]
  show ?thesis
    by (simp add: train_weights_def evaluate_score_ok[OF assms] deposits_def)
qed

lemma sum_list_cong:
  fixes f g :: "nat \<Rightarrow> 'a::monoid_add"
  assumes "\<forall>i\<in>set xs. f i = g i"
  shows "(\<Sum>i\<leftarrow>xs. f i) = (\<Sum>i\<leftarrow>xs. g i)"
  using assms by (induction xs) simp_all

lemma sum_list_affine:
  fixes g :: "nat \<Rightarrow> real" and h :: "nat \<Rightarrow> nat"
  shows "(\<Sum>i\<leftarrow>xs. g i + real (h i) * d) = (\<Sum>i\<leftarrow>xs. g i) + real (\<Sum>i\<leftarrow>xs. h i) * d"
  by (induction xs) (simp_all add: algebra_simps)






text \<open>A network of 8 tables of \<open>16^6\<close> entries that all hold the weight \<open>w\<close>, and the
  empty board.\<close>

definition flat_net :: "ieee \<Rightarrow> network" where
  "flat_net w = replicate 8 \<lparr>wsize = 16777216, wvalue = (\<lambda>x. w)\<rparr>"

definition zero_net :: network where
  "zero_net = flat_net (Finite 0)"

definition zero_board :: board where
  "zero_board = replicate 16 0"

lemma flat_net_ok: "net_ok (flat_net w)"
  by (simp add: net_ok_def flat_net_def list_all_length)

lemma zero_net_ok: "net_ok zero_net"
  by (simp add: zero_net_def flat_net_ok)

lemma zero_board_ok: "board_ok zero_board"
  by (simp add: board_ok_def zero_board_def list_all_length)

lemma block_of_eight_eq:
  assumes "j < 8"
  shows "length (filter (\<lambda>k. k div 8 = j) [0..<64]) = 8"
proof -
  have "set (filter (\<lambda>k. k div 8 = j) [0..<64]) = {8 * j..<8 * j + 8}"
    using assms by auto
  then have "card (set (filter (\<lambda>k. k div 8 = j) [0..<64])) = 8"
    by simp
  moreover have "distinct (filter (\<lambda>k. k div 8 = j) [0..<64])" by simp
  then have "card (set (filter (\<lambda>k. k div 8 = j) [0..<64]))
      = length (filter (\<lambda>k. k div 8 = j) [0..<64])"
    by (rule distinct_card)
  ultimately show ?thesis by linarith
qed

lemma feature_zero_board:
  assumes "i < 64"
  shows "evaluate_feature zero_board (network_index ! i) = 0"
proof -
  have "\<forall>k<6. network_index ! i ! k < 16"
    using network_index_row[OF assms] by (simp add: list_all_length)
  then have "\<forall>k<6. zero_board ! (network_index ! i ! k) = 0"
    by (simp add: zero_board_def)
  then show ?thesis
    by (simp add: evaluate_feature_def)
qed

lemma deposits_zero_board:
  assumes "j < 8"
  shows "deposits zero_board j 0 = 8"
proof -
  have "filter (\<lambda>k. k div 8 = j \<and> evaluate_feature zero_board (network_index ! k) = 0) [0..<64]
          = filter (\<lambda>k. k div 8 = j) [0..<64]"
    by (rule filter_cong) (simp_all add: feature_zero_board)
  then show ?thesis
    using block_of_eight_eq[OF assms] by (simp add: deposits_def)
qed

lemma shared_zero_board:
  assumes "i < 64"
  shows "shared zero_board i = 8"
  using assms deposits_zero_board[of "i div 8"] by (simp add: shared_def feature_zero_board)

lemma overlap_zero_board: "overlap zero_board = 512"
proof -
  have "\<forall>i\<in>set [0..<64]. shared zero_board i = 8"
    by (simp add: shared_zero_board)
  from sum_list_cong[OF this] show ?thesis
    by (simp add: overlap_def sum_list_triv)
qed

text \<open>C9. On a board of 16 cells with tile indices below 16, each of the 64 patterns of
  \<open>network_index\<close> reads cells inside the board and yields a table index below
  \<open>16^6\<close>; so on a network of 8 tables of \<open>16^6\<close> entries neither \<open>evaluate_score\<close>
  nor \<open>train_weights\<close> leaves a table: both return a value.\<close>

theorem feature_index_in_range:
  assumes "board_ok b"
  shows "(\<forall>i<64. list_all (\<lambda>k. k < length b) (network_index ! i)
            \<and> evaluate_feature b (network_index ! i) < 16 ^ 6)
     \<and> (net_ok net \<longrightarrow> evaluate_score net b \<noteq> None \<and> train_weights alpha net b target \<noteq> None)"
proof -
  have len: "length b = 16" using assms by (simp add: board_ok_def)
  have "\<forall>i<64. list_all (\<lambda>k. k < length b) (network_index ! i)
            \<and> evaluate_feature b (network_index ! i) < 16 ^ 6"
    using network_index_row(2) feature_less[OF assms] by (simp add: len)
  moreover have "net_ok net \<longrightarrow> evaluate_score net b \<noteq> None \<and> train_weights alpha net b target \<noteq> None"
  proof
    assume ok: "net_ok net"
    from train_weights_ok[OF ok assms, of alpha target] evaluate_score_ok[OF ok assms]
    show "evaluate_score net b \<noteq> None \<and> train_weights alpha net b target \<noteq> None"
      by auto
  qed
  ultimately show ?thesis by blast
qed

theorem feature_index_in_range_witness:
  "board_ok zero_board \<and> net_ok zero_net
   \<and> evaluate_feature zero_board (network_index ! 26) < 16 ^ 6
   \<and> evaluate_score zero_net zero_board \<noteq> None
   \<and> train_weights (Finite 1) zero_net zero_board (Finite 1) \<noteq> None"
  using feature_index_in_range[OF zero_board_ok, of zero_net "Finite 1" "Finite 1"]
    zero_board_ok zero_net_ok
  by simp


subsection \<open>The error of an update\<close>

text \<open>The real number that a finite value stands for; the statements below use it for
  finite values only.\<close>

fun value_of :: "ieee \<Rightarrow> real" where
  "value_of (Finite a) = a"
| "value_of x = 0"

fun is_finite :: "ieee \<Rightarrow> bool" where
  "is_finite (Finite a) = True"
| "is_finite x = False"

text \<open>The absolute TD error \<open>|target - evaluate(state)|\<close>, as a real number, of a finite
  target and a finite evaluation; and the same error measured on the network that a call
  of \<open>train_weights\<close> leaves.\<close>

definition td_error :: "network \<Rightarrow> board \<Rightarrow> ieee \<Rightarrow> real option" where
  "td_error net b target =
     (case evaluate_score net b of
        None \<Rightarrow> None
      | Some v \<Rightarrow>
          if is_finite target \<and> is_finite v then Some \<bar>value_of target - value_of v\<bar> else None)"

definition td_error_after :: "ieee \<Rightarrow> network \<Rightarrow> board \<Rightarrow> ieee \<Rightarrow> real option" where
  "td_error_after alpha net b target =
     (case train_weights alpha net b target of
        None \<Rightarrow> None
      | Some net' \<Rightarrow> td_error net' b target)"

text \<open>The sum of the 64 table entries of a board as a real number, without rounding.\<close>

definition exact_sum :: "network \<Rightarrow> board \<Rightarrow> real" where
  "exact_sum net b = (\<Sum>i\<leftarrow>[0..<64]. value_of (table_value net b i))"

text \<open>
  A call \<open>train_weights alpha net b target\<close> that leaves \<open>net'\<close> computes without
  rounding when the learning rate, the target and the entries read are finite and every
  step returns the exact result: the evaluation before the call, the error, the
  adjustment, the additions to each entry, and the evaluation on \<open>net'\<close>.
\<close>

definition unrounded :: "ieee \<Rightarrow> network \<Rightarrow> board \<Rightarrow> ieee \<Rightarrow> network \<Rightarrow> bool" where
  "unrounded alpha net b target net' =
     (is_finite alpha \<and> is_finite target
      \<and> list_all (\<lambda>i. is_finite (table_value net b i)) [0..<64]
      \<and> evaluate_score net b = Some (Finite (exact_sum net b))
      \<and> float_sub target (Finite (exact_sum net b)) = Finite (value_of target - exact_sum net b)
      \<and> float_mul (Finite (value_of target - exact_sum net b)) alpha
          = Finite ((value_of target - exact_sum net b) * value_of alpha)
      \<and> list_all (\<lambda>i. table_value net' b i
            = Finite (value_of (table_value net b i)
                + real (shared b i) * ((value_of target - exact_sum net b) * value_of alpha)))
          [0..<64]
      \<and> evaluate_score net' b = Some (Finite (exact_sum net' b)))"

lemma exact_sum_after:
  assumes "list_all (\<lambda>i. table_value net' b i
            = Finite (value_of (table_value net b i) + real (shared b i) * d)) [0..<64]"
  shows "exact_sum net' b = exact_sum net b + real (overlap b) * d"
proof -
  have "\<forall>i\<in>set [0..<64]. value_of (table_value net' b i)
      = value_of (table_value net b i) + real (shared b i) * d"
    using assms by (simp add: list_all_iff)
  from sum_list_cong[OF this] show ?thesis
    by (simp only: exact_sum_def overlap_def sum_list_affine)
qed

lemma unrounded_error:
  assumes "unrounded alpha net b target net'" "train_weights alpha net b target = Some net'"
  shows "td_error net b target = Some \<bar>value_of target - exact_sum net b\<bar>"
    and "td_error_after alpha net b target
          = Some \<bar>(value_of target - exact_sum net b) * (1 - value_of alpha * real (overlap b))\<bar>"
proof -
  from assms(1) have ft: "is_finite target"
    and e: "evaluate_score net b = Some (Finite (exact_sum net b))"
    and e': "evaluate_score net' b = Some (Finite (exact_sum net' b))"
    and tv: "list_all (\<lambda>i. table_value net' b i
            = Finite (value_of (table_value net b i)
                + real (shared b i) * ((value_of target - exact_sum net b) * value_of alpha)))
          [0..<64]"
    by (simp_all add: unrounded_def)
  show "td_error net b target = Some \<bar>value_of target - exact_sum net b\<bar>"
    using ft e by (simp add: td_error_def)
  have "exact_sum net' b = exact_sum net b
      + real (overlap b) * ((value_of target - exact_sum net b) * value_of alpha)"
    by (rule exact_sum_after[OF tv])
  then have "value_of target - exact_sum net' b
      = (value_of target - exact_sum net b) * (1 - value_of alpha * real (overlap b))"
    by (simp add: algebra_simps)
  then show "td_error_after alpha net b target
          = Some \<bar>(value_of target - exact_sum net b) * (1 - value_of alpha * real (overlap b))\<bar>"
    using ft e' assms(2) by (simp add: td_error_after_def td_error_def)
qed

text \<open>Sums of equal addends that are multiples of a power of two stay exact while they
  fit in 24 bits.\<close>

lemma float_chain:
  assumes "- 149 \<le> g" "g \<le> 103"
  shows "\<forall>k\<le>n. \<bar>a + int k * c\<bar> < 16777216 \<Longrightarrow>
    ((\<lambda>w. float_add w (Finite (of_int c * pow2 g))) ^^ n) (Finite (of_int a * pow2 g))
      = Finite (of_int (a + int n * c) * pow2 g)"
proof (induction n)
  case 0
  then show ?case by simp
next
  case (Suc n)
  from Suc.prems have "\<forall>k\<le>n. \<bar>a + int k * c\<bar> < 16777216" by simp
  from Suc.IH[OF this]
  have ih: "((\<lambda>w. float_add w (Finite (of_int c * pow2 g))) ^^ n) (Finite (of_int a * pow2 g))
      = Finite (of_int (a + int n * c) * pow2 g)" .
  have "\<bar>a + int (Suc n) * c\<bar> < 16777216" using Suc.prems by blast
  from float_exact[OF assms this]
  have "round_float (of_int (a + int (Suc n) * c) * pow2 g)
      = Finite (of_int (a + int (Suc n) * c) * pow2 g)" .
  moreover have "of_int (a + int n * c) * pow2 g + of_int c * pow2 g
      = of_int (a + int (Suc n) * c) * pow2 g"
    by (simp add: algebra_simps)
  ultimately show ?case
    using ih by (simp add: float_add_def)
qed

lemma foldl_replicate:
  "foldl f s (replicate n d) = ((\<lambda>w. f w d) ^^ n) s"
proof (induction n arbitrary: s)
  case 0
  then show ?case by simp
next
  case (Suc n)
  have "((\<lambda>w. f w d) ^^ n) (f s d) = f (((\<lambda>w. f w d) ^^ n) s) d"
    by (rule funpow_swap1[symmetric])
  with Suc show ?case by simp
qed

lemma map_constant:
  "\<forall>i\<in>set xs. f i = c \<Longrightarrow> map f xs = replicate (length xs) c"
  by (induction xs) simp_all

lemma score_sum_constant:
  assumes "\<forall>i<64. table_value net b i = c"
  shows "score_sum net b = ((\<lambda>w. float_add w c) ^^ 64) (Finite 0)"
proof -
  have "\<forall>i\<in>set [0..<64]. table_value net b i = c" using assms by simp
  from map_constant[OF this] show ?thesis
    by (simp add: score_sum_def foldl_replicate)
qed


lemma table_value_flat:
  assumes "i < 64"
  shows "table_value (flat_net w) b i = w"
proof -
  have "i div 8 < 8" using assms by simp
  then show ?thesis by (simp add: table_value_def flat_net_def)
qed



lemma float_dyadic:
  assumes "- 149 \<le> g" "g \<le> 103" "\<bar>m\<bar> < 16777216" "x = of_int m * pow2 g"
  shows "round_float x = Finite x"
  using float_exact[OF assms(1-3)] assms(4) by simp

lemma float_chain_at:
  assumes "- 149 \<le> g" "g \<le> 103" "\<bar>a\<bar> + int n * \<bar>c\<bar> < 16777216"
    and "x = of_int a * pow2 g" "d = of_int c * pow2 g" "y = of_int (a + int n * c) * pow2 g"
  shows "((\<lambda>w. float_add w (Finite d)) ^^ n) (Finite x) = Finite y"
proof -
  have "\<forall>k\<le>n. \<bar>a + int k * c\<bar> < 16777216"
  proof (intro allI impI)
    fix k assume k: "k \<le> n"
    have "\<bar>a + int k * c\<bar> \<le> \<bar>a\<bar> + int k * \<bar>c\<bar>"
      using abs_triangle_ineq[of a "int k * c"] by (simp add: abs_mult)
    also have "int k * \<bar>c\<bar> \<le> int n * \<bar>c\<bar>" using k by (simp add: mult_right_mono)
    finally show "\<bar>a + int k * c\<bar> < 16777216" using assms(3) by linarith
  qed
  from float_chain[OF assms(1,2) this] assms(4,5,6) show ?thesis by simp
qed

lemma flat_score:
  "evaluate_score (flat_net w) zero_board = Some (((\<lambda>v. float_add v w) ^^ 64) (Finite 0))"
  using evaluate_score_ok[OF flat_net_ok zero_board_ok, of w]
    score_sum_constant[of "flat_net w" zero_board w]
  by (simp add: table_value_flat)


















subsection \<open>Closing an episode\<close>

text \<open>
  \<^verbatim>\<open>close_episode\<close>: the loop \<^verbatim>\<open>for(int i=episode.size()-2;i>=0;i--)\<close> as a
  recursion on \<open>i + 1\<close>; \<open>sweep alpha episode (Suc i) net\<close> runs the body for \<open>i\<close> and
  goes on downwards. The argument of \<^verbatim>\<open>train_weights\<close> is evaluated on the network
  as it is before that call.
\<close>

fun sweep :: "ieee \<Rightarrow> state list \<Rightarrow> nat \<Rightarrow> network \<Rightarrow> network option" where
  "sweep alpha episode 0 net = Some net"
| "sweep alpha episode (Suc i) net =
     (case evaluate_score net (after (episode ! (i + 1))) of
        None \<Rightarrow> None
      | Some v \<Rightarrow>
          (case train_weights alpha net (after (episode ! i))
                  (float_add (float_of_int (reward (episode ! (i + 1)))) v) of
             None \<Rightarrow> None
           | Some net' \<Rightarrow> sweep alpha episode i net'))"

definition close_episode :: "ieee \<Rightarrow> state list \<Rightarrow> network \<Rightarrow> network option" where
  "close_episode alpha episode net =
     (if episode = [] then Some net
      else (case train_weights alpha net (after (episode ! (length episode - 1))) (float_of_int 0) of
              None \<Rightarrow> None
            | Some net' \<Rightarrow> sweep alpha episode (length episode - 1) net'))"

lemma sweep_chain:
  assumes boards: "\<forall>s\<in>set episode. board_ok (after s)"
  shows "net_ok net \<Longrightarrow> k < length episode \<Longrightarrow>
    \<exists>nets. length nets = k + 1 \<and> nets ! 0 = net \<and> list_all net_ok nets
      \<and> (\<forall>m<k. \<exists>v. evaluate_score (nets ! m) (after (episode ! (k - m))) = Some v
            \<and> train_weights alpha (nets ! m) (after (episode ! (k - m - 1)))
                 (float_add (float_of_int (reward (episode ! (k - m)))) v) = Some (nets ! (m + 1)))
      \<and> sweep alpha episode k net = Some (nets ! k)"
proof (induction k arbitrary: net)
  case 0
  then show ?case
    by (intro exI[of _ "[net]"]) simp
next
  case (Suc i)
  let ?s1 = "after (episode ! (i + 1))" and ?s0 = "after (episode ! i)"
  have b1: "board_ok ?s1" and b0: "board_ok ?s0"
    using boards Suc.prems(2) by simp_all
  have e: "evaluate_score net ?s1 = Some (score_sum net ?s1)"
    by (rule evaluate_score_ok[OF Suc.prems(1) b1])
  let ?t = "float_add (float_of_int (reward (episode ! (i + 1)))) (score_sum net ?s1)"
  from train_weights_ok[OF Suc.prems(1) b0, of alpha ?t] obtain n1 where
    t: "train_weights alpha net ?s0 ?t = Some n1" and ok1: "net_ok n1"
    by blast
  from Suc.IH[OF ok1] Suc.prems(2) obtain nets where
    len: "length nets = i + 1" and hd: "nets ! 0 = n1" and oks: "list_all net_ok nets"
    and steps: "\<forall>m<i. \<exists>v. evaluate_score (nets ! m) (after (episode ! (i - m))) = Some v
            \<and> train_weights alpha (nets ! m) (after (episode ! (i - m - 1)))
                 (float_add (float_of_int (reward (episode ! (i - m)))) v) = Some (nets ! (m + 1))"
    and res: "sweep alpha episode i n1 = Some (nets ! i)"
    by auto
  let ?nets = "net # nets"
  have "\<forall>m<Suc i. \<exists>v. evaluate_score (?nets ! m) (after (episode ! (Suc i - m))) = Some v
            \<and> train_weights alpha (?nets ! m) (after (episode ! (Suc i - m - 1)))
                 (float_add (float_of_int (reward (episode ! (Suc i - m)))) v) = Some (?nets ! (m + 1))"
  proof (intro allI impI)
    fix m assume m: "m < Suc i"
    show "\<exists>v. evaluate_score (?nets ! m) (after (episode ! (Suc i - m))) = Some v
            \<and> train_weights alpha (?nets ! m) (after (episode ! (Suc i - m - 1)))
                 (float_add (float_of_int (reward (episode ! (Suc i - m)))) v) = Some (?nets ! (m + 1))"
    proof (cases m)
      case 0
      then show ?thesis using e t hd by simp
    next
      case (Suc m')
      then have "m' < i" using m by simp
      with steps have "\<exists>v. evaluate_score (nets ! m') (after (episode ! (i - m'))) = Some v
            \<and> train_weights alpha (nets ! m') (after (episode ! (i - m' - 1)))
                 (float_add (float_of_int (reward (episode ! (i - m')))) v) = Some (nets ! (m' + 1))"
        by blast
      then show ?thesis using Suc by simp
    qed
  qed
  moreover have "sweep alpha episode (Suc i) net = Some (?nets ! Suc i)"
    using e t res by simp
  moreover have "length ?nets = Suc i + 1" "?nets ! 0 = net" "list_all net_ok ?nets"
    using len oks Suc.prems(1) by simp_all
  ultimately show ?case by blast
qed

text \<open>C3. Closing an empty episode leaves the network as it is. Closing an episode of
  \<open>n \<ge> 1\<close> steps on a network and boards of the data model runs one backward sweep of
  exactly \<open>n\<close> updates through the networks \<open>nets ! 0, ..., nets ! n\<close>: the first trains
  \<open>s (n-1)\<close> toward 0, and the update number \<open>k\<close> (\<open>1 \<le> k < n\<close>) trains \<open>s (n-1-k)\<close>
  toward \<open>r (n-k) + evaluate (s (n-k))\<close>, evaluated on \<open>nets ! k\<close>, the network that
  the update of \<open>s (n-k)\<close> has just produced.\<close>

theorem close_episode_backward_sweep:
  assumes "net_ok net" and "\<forall>s\<in>set episode. board_ok (after s)"
  shows "close_episode alpha [] net = Some net
    \<and> (episode \<noteq> [] \<longrightarrow>
        (\<exists>nets. length nets = length episode + 1 \<and> nets ! 0 = net
          \<and> train_weights alpha (nets ! 0) (after (episode ! (length episode - 1))) (Finite 0)
              = Some (nets ! 1)
          \<and> (\<forall>k. 1 \<le> k \<and> k < length episode \<longrightarrow>
                (\<exists>v. evaluate_score (nets ! k) (after (episode ! (length episode - k))) = Some v
                  \<and> train_weights alpha (nets ! k) (after (episode ! (length episode - 1 - k)))
                       (float_add (float_of_int (reward (episode ! (length episode - k)))) v)
                     = Some (nets ! (k + 1))))
          \<and> close_episode alpha episode net = Some (nets ! length episode)))"
proof -
  have empty: "close_episode alpha [] net = Some net"
    by (simp add: close_episode_def)
  have "episode \<noteq> [] \<longrightarrow>
        (\<exists>nets. length nets = length episode + 1 \<and> nets ! 0 = net
          \<and> train_weights alpha (nets ! 0) (after (episode ! (length episode - 1))) (Finite 0)
              = Some (nets ! 1)
          \<and> (\<forall>k. 1 \<le> k \<and> k < length episode \<longrightarrow>
                (\<exists>v. evaluate_score (nets ! k) (after (episode ! (length episode - k))) = Some v
                  \<and> train_weights alpha (nets ! k) (after (episode ! (length episode - 1 - k)))
                       (float_add (float_of_int (reward (episode ! (length episode - k)))) v)
                     = Some (nets ! (k + 1))))
          \<and> close_episode alpha episode net = Some (nets ! length episode))"
  proof
    assume ne: "episode \<noteq> []"
    define n where "n = length episode"
    have n: "0 < n" "n - 1 < length episode" using ne by (simp_all add: n_def)
    have bl: "board_ok (after (episode ! (n - 1)))"
      using assms(2) n(2) by simp
    from train_weights_ok[OF assms(1) bl, of alpha "Finite 0"] obtain n1 where
      t: "train_weights alpha net (after (episode ! (n - 1))) (Finite 0) = Some n1" and ok1: "net_ok n1"
      by blast
    from sweep_chain[OF assms(2) ok1 n(2), of alpha] obtain nets where
      len: "length nets = n - 1 + 1" and hd: "nets ! 0 = n1"
      and steps: "\<forall>m<n - 1. \<exists>v. evaluate_score (nets ! m) (after (episode ! (n - 1 - m))) = Some v
            \<and> train_weights alpha (nets ! m) (after (episode ! (n - 1 - m - 1)))
                 (float_add (float_of_int (reward (episode ! (n - 1 - m)))) v) = Some (nets ! (m + 1))"
      and res: "sweep alpha episode (n - 1) n1 = Some (nets ! (n - 1))"
      by blast
    let ?nets = "net # nets"
    have a: "length ?nets = n + 1" "?nets ! 0 = net" using len n by simp_all
    have b: "train_weights alpha (?nets ! 0) (after (episode ! (n - 1))) (Finite 0) = Some (?nets ! 1)"
      using t hd by simp
    have c: "\<forall>k. 1 \<le> k \<and> k < n \<longrightarrow>
                (\<exists>v. evaluate_score (?nets ! k) (after (episode ! (n - k))) = Some v
                  \<and> train_weights alpha (?nets ! k) (after (episode ! (n - 1 - k)))
                       (float_add (float_of_int (reward (episode ! (n - k)))) v)
                     = Some (?nets ! (k + 1)))"
    proof (intro allI impI)
      fix k assume k: "1 \<le> k \<and> k < n"
      then obtain m where m: "k = Suc m" "m < n - 1" by (cases k) auto
      from steps m(2) have "\<exists>v. evaluate_score (nets ! m) (after (episode ! (n - 1 - m))) = Some v
            \<and> train_weights alpha (nets ! m) (after (episode ! (n - 1 - m - 1)))
                 (float_add (float_of_int (reward (episode ! (n - 1 - m)))) v) = Some (nets ! (m + 1))"
        by blast
      then show "\<exists>v. evaluate_score (?nets ! k) (after (episode ! (n - k))) = Some v
                  \<and> train_weights alpha (?nets ! k) (after (episode ! (n - 1 - k)))
                       (float_add (float_of_int (reward (episode ! (n - k)))) v)
                     = Some (?nets ! (k + 1))"
        using m by simp
    qed
    have d: "close_episode alpha episode net = Some (?nets ! n)"
      using ne t res n by (simp add: close_episode_def n_def[symmetric] float_of_int_exact)
    from a b c d show "\<exists>nets. length nets = length episode + 1 \<and> nets ! 0 = net
          \<and> train_weights alpha (nets ! 0) (after (episode ! (length episode - 1))) (Finite 0)
              = Some (nets ! 1)
          \<and> (\<forall>k. 1 \<le> k \<and> k < length episode \<longrightarrow>
                (\<exists>v. evaluate_score (nets ! k) (after (episode ! (length episode - k))) = Some v
                  \<and> train_weights alpha (nets ! k) (after (episode ! (length episode - 1 - k)))
                       (float_add (float_of_int (reward (episode ! (length episode - k)))) v)
                     = Some (nets ! (k + 1))))
          \<and> close_episode alpha episode net = Some (nets ! length episode)"
      unfolding n_def by blast
  qed
  with empty show ?thesis by blast
qed

theorem close_episode_backward_sweep_witness:
  "net_ok zero_net \<and> board_ok zero_board
   \<and> close_episode (Finite (1 / 1024)) [] zero_net = Some zero_net
   \<and> close_episode (Finite (1 / 1024))
        [\<lparr>after = zero_board, reward = 0\<rparr>, \<lparr>after = zero_board, reward = 3\<rparr>] zero_net \<noteq> None"
proof -
  have "\<forall>s\<in>set [\<lparr>after = zero_board, reward = 0\<rparr>, \<lparr>after = zero_board, reward = 3\<rparr>].
          board_ok (after s)"
    by (simp add: zero_board_ok)
  from close_episode_backward_sweep[OF zero_net_ok this, of "Finite (1 / 1024)"]
  show ?thesis
    using zero_net_ok zero_board_ok by auto
qed


subsection \<open>Move selection\<close>

text \<open>
  The actions a slider returns (action.h is not part of the sources): the default
  \<^verbatim>\<open>action()\<close> and \<^verbatim>\<open>action::slide(op)\<close>, kept apart as the two constructor
  calls of the source.
\<close>

datatype action = action_null | action_slide int

text \<open>The sibling \<^verbatim>\<open>my_player::take_action\<close> of the same file, which looks two slides
  ahead on rewards alone.\<close>

fun second_loop :: "(int \<Rightarrow> board \<Rightarrow> int \<times> board) \<Rightarrow> board \<Rightarrow> int list \<Rightarrow> int \<Rightarrow> int" where
  "second_loop slide temp [] s_bestcount = s_bestcount"
| "second_loop slide temp (s_op # ops) s_bestcount =
     (let s_reward = fst (slide s_op temp)
      in second_loop slide temp ops (if s_bestcount < s_reward then s_reward else s_bestcount))"

fun my_player_loop ::
  "(int \<Rightarrow> board \<Rightarrow> int \<times> board) \<Rightarrow> board \<Rightarrow> int list \<Rightarrow> int \<times> int \<Rightarrow> int \<times> int" where
  "my_player_loop slide before [] (best_reward, best_op) = (best_reward, best_op)"
| "my_player_loop slide before (f_op # ops) (best_reward, best_op) =
     (case slide f_op before of
        (f_reward, temp) \<Rightarrow>
          (let s_bestcount = second_loop slide temp [0, 1, 2, 3] (-1)
           in if f_reward + s_bestcount > best_reward
              then my_player_loop slide before ops (f_reward + s_bestcount, f_op)
              else my_player_loop slide before ops (best_reward, best_op)))"

definition my_player_take_action :: "(int \<Rightarrow> board \<Rightarrow> int \<times> board) \<Rightarrow> board \<Rightarrow> action" where
  "my_player_take_action slide before =
     (case my_player_loop slide before [0, 1, 2, 3] (-1, -1) of
        (best_reward, best_op) \<Rightarrow>
          if best_reward \<noteq> -1 then action_slide best_op else action_null)"


text \<open>The locals of \<^verbatim>\<open>tuple_player::take_action\<close> that the loop updates; \<open>sel_after\<close> is
  the local \<^verbatim>\<open>board after\<close>.\<close>

record locals =
  best_reward :: int
  best_value :: ieee
  sel_after :: board
  best_op :: int

text \<open>
  \<^verbatim>\<open>board::slide\<close> belongs to board.h: it is the parameter \<open>slide\<close>, which gives for an
  opcode and a board the reward (\<open>-1\<close> for an illegal move) and the board after the move.
  The loop runs over the opcodes in the order of the source; the default constructed
  \<^verbatim>\<open>board after\<close> is only read after it has been assigned. In
  \<^verbatim>\<open>f_reward+value>best_reward+best_value\<close> each \<^verbatim>\<open>int\<close> is converted to \<^verbatim>\<open>float\<close>, the
  two sums are rounded to \<^verbatim>\<open>float\<close>, and the comparison is that of the rounded sums.
\<close>

fun take_action_loop ::
  "(int \<Rightarrow> board \<Rightarrow> int \<times> board) \<Rightarrow> network \<Rightarrow> board \<Rightarrow> int list \<Rightarrow> locals \<Rightarrow> locals option"
where
  "take_action_loop slide net before [] st = Some st"
| "take_action_loop slide net before (f_op # ops) st =
     (case slide f_op before of
        (f_reward, temp) \<Rightarrow>
          if f_reward = -1 then take_action_loop slide net before ops st
          else (case evaluate_score net temp of
                  None \<Rightarrow> None
                | Some v \<Rightarrow>
                    if ieee_less (float_add (float_of_int (best_reward st)) (best_value st))
                         (float_add (float_of_int f_reward) v)
                    then take_action_loop slide net before ops
                           \<lparr>best_reward = f_reward, best_value = v, sel_after = temp, best_op = f_op\<rparr>
                    else take_action_loop slide net before ops st))"

definition take_action ::
  "(int \<Rightarrow> board \<Rightarrow> int \<times> board) \<Rightarrow> network \<Rightarrow> state list \<Rightarrow> board \<Rightarrow> (action \<times> state list) option"
where
  "take_action slide net episode before =
     (case take_action_loop slide net before [0, 1, 2, 3]
             \<lparr>best_reward = -1, best_value = float_of_int (- 9999999), sel_after = [], best_op = -1\<rparr> of
        None \<Rightarrow> None
      | Some st \<Rightarrow>
          Some (action_slide (best_op st),
                if best_op st \<noteq> -1
                then episode @ [\<lparr>after = sel_after st, reward = best_reward st\<rparr>]
                else episode))"

text \<open>A move is legal when its reward is not the sentinel; its value is the sum that the
  loop compares: the reward, converted, plus the evaluation of the board it leads to,
  rounded to \<^verbatim>\<open>float\<close>.\<close>

definition legal :: "(int \<Rightarrow> board \<Rightarrow> int \<times> board) \<Rightarrow> board \<Rightarrow> int \<Rightarrow> bool" where
  "legal slide before op = (fst (slide op before) \<noteq> -1)"

definition move_value :: "(int \<Rightarrow> board \<Rightarrow> int \<times> board) \<Rightarrow> network \<Rightarrow> board \<Rightarrow> int \<Rightarrow> ieee" where
  "move_value slide net before op =
     float_add (float_of_int (fst (slide op before))) (score_sum net (snd (slide op before)))"

text \<open>The sum of the locals that the loop compares against.\<close>

definition held :: "locals \<Rightarrow> ieee" where
  "held st = float_add (float_of_int (best_reward st)) (best_value st)"

text \<open>What the loop has established after the opcodes \<open>seen\<close>: nothing chosen and no
  legal move above the initial sum \<open>-10000000\<close>, or the first best legal move chosen.\<close>

definition chosen ::
  "(int \<Rightarrow> board \<Rightarrow> int \<times> board) \<Rightarrow> network \<Rightarrow> board \<Rightarrow> int list \<Rightarrow> locals \<Rightarrow> bool" where
  "chosen slide net before seen st =
     (if best_op st = -1
      then held st = Finite (- 10000000)
         \<and> list_all (\<lambda>op. legal slide before op \<longrightarrow>
               \<not> ieee_less (Finite (- 10000000)) (move_value slide net before op)) seen
      else best_op st \<in> set seen \<and> legal slide before (best_op st)
         \<and> best_reward st = fst (slide (best_op st) before)
         \<and> sel_after st = snd (slide (best_op st) before)
         \<and> held st = move_value slide net before (best_op st)
         \<and> ieee_less (Finite (- 10000000)) (move_value slide net before (best_op st))
         \<and> list_all (\<lambda>op. legal slide before op \<longrightarrow>
               \<not> ieee_less (move_value slide net before (best_op st)) (move_value slide net before op)
               \<and> (op < best_op st \<longrightarrow>
                    ieee_less (move_value slide net before op) (move_value slide net before (best_op st))
                    \<or> move_value slide net before op = NaN)) seen)"

lemma initial_held:
  "held \<lparr>best_reward = -1, best_value = float_of_int (- 9999999), sel_after = [], best_op = -1\<rparr>
     = Finite (- 10000000)"
proof -
  have a: "float_of_int (- 1) = Finite (- 1)" "float_of_int (- 9999999) = Finite (- 9999999)"
    using float_of_int_exact[of "- 1"] float_of_int_exact[of "- 9999999"] by simp_all
  have "round_float (- 10000000) = Finite (- 10000000)"
    using float_int[of "- 10000000"] by simp
  then show ?thesis using a by (simp add: held_def float_add_def)
qed

lemma chosen_skip:
  assumes "chosen slide net before seen st" "\<not> legal slide before x"
  shows "chosen slide net before (seen @ [x]) st"
  using assms by (auto simp: chosen_def split: if_splits)

lemma chosen_keep:
  assumes "chosen slide net before seen st" "legal slide before x"
    and "\<not> ieee_less (held st) (move_value slide net before x)" "\<forall>op\<in>set seen. op < x"
  shows "chosen slide net before (seen @ [x]) st"
proof (cases "best_op st = -1")
  case True
  with assms(1,3) show ?thesis by (simp add: chosen_def)
next
  case False
  with assms(1) have "best_op st \<in> set seen" by (simp add: chosen_def)
  with assms(4) have "best_op st < x" by blast
  with assms(1,3) False show ?thesis by (simp add: chosen_def)
qed

lemma chosen_take:
  assumes "chosen slide net before seen st" "legal slide before x" "x \<noteq> -1"
    and "ieee_less (held st) (move_value slide net before x)" "\<forall>op\<in>set seen. op < x"
    and "slide x before = (r, t)"
  shows "chosen slide net before (seen @ [x])
           \<lparr>best_reward = r, best_value = score_sum net t, sel_after = t, best_op = x\<rparr>"
proof -
  let ?mv = "move_value slide net before"
  let ?st = "\<lparr>best_reward = r, best_value = score_sum net t, sel_after = t, best_op = x\<rparr>"
  have hx: "held ?st = ?mv x" using assms(6) by (simp add: held_def move_value_def)
  have low: "held st = Finite (- 10000000) \<or> ieee_less (Finite (- 10000000)) (held st)"
    using assms(1) by (auto simp: chosen_def split: if_splits)
  then have above: "ieee_less (Finite (- 10000000)) (?mv x)"
    using assms(4) ieee_less_trans by auto
  have nn: "held st \<noteq> NaN" using assms(4) ieee_less_NaN by blast
  have older: "\<forall>op\<in>set seen. legal slide before op \<longrightarrow> \<not> ieee_less (held st) (?mv op)"
    using assms(1) by (auto simp: chosen_def list_all_iff split: if_splits)
  have "\<forall>op\<in>set seen. legal slide before op \<longrightarrow>
      \<not> ieee_less (?mv x) (?mv op) \<and> (ieee_less (?mv op) (?mv x) \<or> ?mv op = NaN)"
  proof (intro ballI impI)
    fix op assume op: "op \<in> set seen" "legal slide before op"
    with older have n: "\<not> ieee_less (held st) (?mv op)" by blast
    have a: "\<not> ieee_less (?mv x) (?mv op)"
      using n assms(4) ieee_less_trans by blast
    have b: "ieee_less (?mv op) (?mv x) \<or> ?mv op = NaN"
    proof (cases "?mv op = NaN")
      case True
      then show ?thesis by simp
    next
      case False
      from ieee_less_linear[OF nn False] n have "held st = ?mv op \<or> ieee_less (?mv op) (held st)"
        by blast
      then show ?thesis using assms(4) ieee_less_trans by auto
    qed
    from a b show "\<not> ieee_less (?mv x) (?mv op) \<and> (ieee_less (?mv op) (?mv x) \<or> ?mv op = NaN)"
      by simp
  qed
  then show ?thesis
    using assms(2,3,5,6) hx above
    by (simp add: chosen_def list_all_iff ieee_less_irrefl)
qed

lemma take_action_loop_chosen:
  assumes "net_ok net"
  shows "list_all (\<lambda>op. legal slide before op \<longrightarrow> board_ok (snd (slide op before))) ops \<Longrightarrow>
    sorted_wrt (<) (seen @ ops) \<Longrightarrow> list_all (\<lambda>op. op \<noteq> -1) (seen @ ops) \<Longrightarrow>
    chosen slide net before seen st \<Longrightarrow>
    \<exists>st'. take_action_loop slide net before ops st = Some st'
       \<and> chosen slide net before (seen @ ops) st'"
proof (induction ops arbitrary: seen st)
  case Nil
  then show ?case by simp
next
  case (Cons x ops)
  obtain r t where sl: "slide x before = (r, t)" by (cases "slide x before")
  have x: "x \<noteq> -1" using Cons.prems(3) by simp
  have gt: "\<forall>op\<in>set seen. op < x" using Cons.prems(2) by (auto simp: sorted_wrt_append)
  have rest: "list_all (\<lambda>op. legal slide before op \<longrightarrow> board_ok (snd (slide op before))) ops"
    "sorted_wrt (<) ((seen @ [x]) @ ops)" "list_all (\<lambda>op. op \<noteq> -1) ((seen @ [x]) @ ops)"
    using Cons.prems(1,2,3) by simp_all
  show ?case
  proof (cases "r = -1")
    case True
    then have "\<not> legal slide before x" using sl by (simp add: legal_def)
    from chosen_skip[OF Cons.prems(4) this]
    have "chosen slide net before (seen @ [x]) st" .
    from Cons.IH[OF rest this] show ?thesis
      using sl True by simp
  next
    case False
    then have lx: "legal slide before x" using sl by (simp add: legal_def)
    then have "board_ok t" using Cons.prems(1) sl by simp
    from evaluate_score_ok[OF assms this]
    have ev: "evaluate_score net t = Some (score_sum net t)" .
    have mv: "move_value slide net before x = float_add (float_of_int r) (score_sum net t)"
      using sl by (simp add: move_value_def)
    show ?thesis
    proof (cases "ieee_less (held st) (move_value slide net before x)")
      case True
      let ?st = "\<lparr>best_reward = r, best_value = score_sum net t, sel_after = t, best_op = x\<rparr>"
      from chosen_take[OF Cons.prems(4) lx x True gt sl]
      have "chosen slide net before (seen @ [x]) ?st" .
      from Cons.IH[OF rest this] show ?thesis
        using sl False ev True mv by (simp add: held_def)
    next
      case le: False
      from chosen_keep[OF Cons.prems(4) lx le gt]
      have "chosen slide net before (seen @ [x]) st" .
      from Cons.IH[OF rest this] show ?thesis
        using sl False ev le mv by (simp add: held_def)
    qed
  qed
qed

lemma take_action_result:
  assumes "net_ok net"
    and "\<forall>op\<in>set [0, 1, 2, 3]. legal slide before op \<longrightarrow> board_ok (snd (slide op before))"
  shows "\<exists>st. take_action_loop slide net before [0, 1, 2, 3]
             \<lparr>best_reward = -1, best_value = float_of_int (- 9999999), sel_after = [], best_op = -1\<rparr>
               = Some st
     \<and> chosen slide net before [0, 1, 2, 3] st"
proof -
  let ?st0 = "\<lparr>best_reward = -1, best_value = float_of_int (- 9999999), sel_after = [], best_op = -1\<rparr>"
  have a: "list_all (\<lambda>op. legal slide before op \<longrightarrow> board_ok (snd (slide op before))) [0, 1, 2, 3]"
    using assms(2) by simp
  have b: "sorted_wrt (<) ([] @ [0, 1, 2, 3::int])" "list_all (\<lambda>op. op \<noteq> -1) ([] @ [0, 1, 2, 3::int])"
    by simp_all
  have c: "chosen slide net before [] ?st0"
    using initial_held by (simp add: chosen_def)
  from take_action_loop_chosen[OF assms(1) a b c] show ?thesis by simp
qed


text \<open>Stand-ins for the rules engine: a position where only the slide 0 is legal (one
  tile moves from cell 4 to cell 0, reward 0); the same position where the slide 1 is
  legal as well, with reward 1; and a full board of 1-tiles where no slide is legal.
  \<open>low_net\<close> has all weights at \<open>-156250\<close>, so every board evaluates to \<open>-10000000\<close>;
  \<open>high_net\<close> has all weights at \<open>262144\<close>, so every board evaluates to \<open>2^24\<close>.\<close>

definition edge_board :: board where
  "edge_board = [0,0,0,0, 1,0,0,0, 0,0,0,0, 0,0,0,0]"

definition corner_board :: board where
  "corner_board = [1,0,0,0, 0,0,0,0, 0,0,0,0, 0,0,0,0]"

definition side_board :: board where
  "side_board = [0,0,0,0, 0,0,0,1, 0,0,0,0, 0,0,0,0]"

definition one_move :: "int \<Rightarrow> board \<Rightarrow> int \<times> board" where
  "one_move op b = (if op = 0 then (0, corner_board) else (-1, b))"

definition two_moves :: "int \<Rightarrow> board \<Rightarrow> int \<times> board" where
  "two_moves op b =
     (if op = 0 then (0, corner_board) else if op = 1 then (1, side_board) else (-1, b))"

definition full_board :: board where
  "full_board = replicate 16 1"

definition stuck :: "int \<Rightarrow> board \<Rightarrow> int \<times> board" where
  "stuck op b = (-1, b)"

definition low_net :: network where
  "low_net = flat_net (Finite (- 156250))"

definition high_net :: network where
  "high_net = flat_net (Finite 262144)"

lemma corner_board_ok: "board_ok corner_board"
  by (simp add: board_ok_def corner_board_def)

lemma side_board_ok: "board_ok side_board"
  by (simp add: board_ok_def side_board_def)

lemma score_sum_flat: "score_sum (flat_net w) b = ((\<lambda>v. float_add v w) ^^ 64) (Finite 0)"
  using score_sum_constant[of "flat_net w" b w] by (simp add: table_value_flat)

lemma score_sum_low_net: "score_sum low_net b = Finite (- 10000000)"
proof -
  have "((\<lambda>v. float_add v (Finite (- 156250))) ^^ 64) (Finite 0) = Finite (- 10000000)"
    by (rule float_chain_at[where g = 0 and n = 64 and a = 0 and c = "- 156250"])
      (simp_all add: pow2_numeral)
  then show ?thesis by (simp add: low_net_def score_sum_flat)
qed

lemma score_sum_high_net: "score_sum high_net b = Finite 16777216"
proof -
  have "((\<lambda>v. float_add v (Finite 262144)) ^^ 64) (Finite 0) = Finite 16777216"
    by (rule float_chain_at[where g = 18 and n = 64 and a = 0 and c = 1])
      (simp_all add: pow2_def)
  then show ?thesis by (simp add: high_net_def score_sum_flat)
qed

lemma score_sum_zero_net: "score_sum zero_net b = Finite 0"
proof -
  have "((\<lambda>v. float_add v (Finite 0)) ^^ 64) (Finite 0) = Finite 0"
    by (rule float_chain_at[where g = 0 and n = 64 and a = 0 and c = 0]) (simp_all add: pow2_numeral)
  then show ?thesis by (simp add: zero_net_def score_sum_flat)
qed

lemma high_sums:
  "float_add (float_of_int 0) (Finite 16777216) = Finite 16777216"
  "float_add (float_of_int 1) (Finite 16777216) = Finite 16777216"
proof -
  have a: "float_of_int 0 = Finite 0" "float_of_int 1 = Finite 1"
    using float_of_int_exact[of 0] float_of_int_exact[of 1] by simp_all
  have "round_float 16777216 = Finite 16777216"
    by (rule float_dyadic[of 24 1]) (simp_all add: pow2_numeral)
  then show "float_add (float_of_int 0) (Finite 16777216) = Finite 16777216"
    using a by (simp add: float_add_def)
  have "round_even (16777217 / pow2 (24 - 23)) = 8388608"
    by (simp add: pow2_def round_even_def Let_def)
  from round_float_at[of 24 16777217 8388608, OF _ _ _ _ this]
  have "round_float 16777217 = Finite 16777216" by (simp add: pow2_def)
  then show "float_add (float_of_int 1) (Finite 16777216) = Finite 16777216"
    using a by (simp add: float_add_def)
qed

lemma zero_sums:
  "float_add (float_of_int 0) (Finite 0) = Finite 0"
  "float_add (float_of_int 1) (Finite 0) = Finite 1"
  "float_add (float_of_int 0) (Finite (- 10000000)) = Finite (- 10000000)"
proof -
  have a: "float_of_int 0 = Finite 0" "float_of_int 1 = Finite 1"
    using float_of_int_exact[of 0] float_of_int_exact[of 1] by simp_all
  have "round_float 0 = Finite 0" "round_float 1 = Finite 1"
    "round_float (- 10000000) = Finite (- 10000000)"
    using float_int[of 0] float_int[of 1] float_int[of "- 10000000"] by simp_all
  then show "float_add (float_of_int 0) (Finite 0) = Finite 0"
    "float_add (float_of_int 1) (Finite 0) = Finite 1"
    "float_add (float_of_int 0) (Finite (- 10000000)) = Finite (- 10000000)"
    using a by (simp_all add: float_add_def)
qed

text \<open>C1 (as amended). On a network of the data model, with the boards of the legal
  moves in the data model, \<open>take_action\<close> tries the slides 0, 1, 2, 3 in this order and
  skips those with reward \<open>-1\<close>. The value of a legal move is \<open>reward + evaluate\<close> as the
  code computes it, in single precision. If some legal move has a value above
  \<open>-10000000\<close>, the sum of the initial \<open>best_reward = -1\<close> and \<open>best_value = -9999999\<close>,
  then \<open>take_action\<close> returns a legal move above \<open>-10000000\<close> than which no legal move has
  a greater value and before which every legal move has a smaller value (or a NaN):
  the first move of maximal value; and it appends exactly the pair of that move's board
  and reward to the episode. Otherwise none of the four slides is returned and nothing is
  appended.\<close>

theorem take_action_selects:
  assumes "net_ok net"
    and "\<forall>op\<in>set [0, 1, 2, 3]. legal slide before op \<longrightarrow> board_ok (snd (slide op before))"
  shows "\<exists>a ep'. take_action slide net episode before = Some (a, ep')
    \<and> (\<forall>op\<in>set [0, 1, 2, 3]. legal slide before op \<longrightarrow>
          evaluate_score net (snd (slide op before)) = Some (score_sum net (snd (slide op before))))
    \<and> (if \<exists>op\<in>set [0, 1, 2, 3]. legal slide before op
             \<and> ieee_less (Finite (- 10000000)) (move_value slide net before op)
        then \<exists>op\<in>set [0, 1, 2, 3]. legal slide before op \<and> a = action_slide op
           \<and> ieee_less (Finite (- 10000000)) (move_value slide net before op)
           \<and> (\<forall>op'\<in>set [0, 1, 2, 3]. legal slide before op' \<longrightarrow>
                 \<not> ieee_less (move_value slide net before op) (move_value slide net before op')
                 \<and> (op' < op \<longrightarrow>
                      ieee_less (move_value slide net before op') (move_value slide net before op)
                      \<or> move_value slide net before op' = NaN))
           \<and> ep' = episode @ [\<lparr>after = snd (slide op before), reward = fst (slide op before)\<rparr>]
        else a \<notin> set (map action_slide [0, 1, 2, 3]) \<and> ep' = episode)"
proof -
  let ?mv = "move_value slide net before"
  let ?low = "Finite (- 10000000)"
  from take_action_result[OF assms] obtain st where
    loop: "take_action_loop slide net before [0, 1, 2, 3]
             \<lparr>best_reward = -1, best_value = float_of_int (- 9999999), sel_after = [], best_op = -1\<rparr>
               = Some st"
    and ch: "chosen slide net before [0, 1, 2, 3] st"
    by blast
  let ?a = "action_slide (best_op st)"
  let ?ep = "if best_op st \<noteq> -1
                then episode @ [\<lparr>after = sel_after st, reward = best_reward st\<rparr>]
                else episode"
  have res: "take_action slide net episode before = Some (?a, ?ep)"
    using loop by (simp add: take_action_def)
  have ev: "\<forall>op\<in>set [0, 1, 2, 3]. legal slide before op \<longrightarrow>
          evaluate_score net (snd (slide op before)) = Some (score_sum net (snd (slide op before)))"
    using assms(2) evaluate_score_ok[OF assms(1)] by blast
  have sel: "if \<exists>op\<in>set [0, 1, 2, 3]. legal slide before op \<and> ieee_less ?low (?mv op)
        then \<exists>op\<in>set [0, 1, 2, 3]. legal slide before op \<and> ?a = action_slide op
           \<and> ieee_less ?low (?mv op)
           \<and> (\<forall>op'\<in>set [0, 1, 2, 3]. legal slide before op' \<longrightarrow>
                 \<not> ieee_less (?mv op) (?mv op')
                 \<and> (op' < op \<longrightarrow> ieee_less (?mv op') (?mv op) \<or> ?mv op' = NaN))
           \<and> ?ep = episode @ [\<lparr>after = snd (slide op before), reward = fst (slide op before)\<rparr>]
        else ?a \<notin> set (map action_slide [0, 1, 2, 3]) \<and> ?ep = episode"
  proof (cases "best_op st = -1")
    case True
    with ch have "\<forall>op\<in>set [0, 1, 2, 3]. legal slide before op \<longrightarrow> \<not> ieee_less ?low (?mv op)"
      by (simp add: chosen_def)
    then have "\<not> (\<exists>op\<in>set [0, 1, 2, 3]. legal slide before op \<and> ieee_less ?low (?mv op))"
      by fastforce
    then show ?thesis using True by simp
  next
    case False
    with ch have best: "best_op st \<in> set [0, 1, 2, 3]" "legal slide before (best_op st)"
      "best_reward st = fst (slide (best_op st) before)"
      "sel_after st = snd (slide (best_op st) before)"
      "ieee_less ?low (?mv (best_op st))"
      and mx: "list_all (\<lambda>op. legal slide before op \<longrightarrow>
               \<not> ieee_less (?mv (best_op st)) (?mv op)
               \<and> (op < best_op st \<longrightarrow> ieee_less (?mv op) (?mv (best_op st)) \<or> ?mv op = NaN))
             [0, 1, 2, 3]"
      by (simp_all add: chosen_def)
    from mx have mx': "\<forall>op'\<in>set [0, 1, 2, 3]. legal slide before op' \<longrightarrow>
                 \<not> ieee_less (?mv (best_op st)) (?mv op')
                 \<and> (op' < best_op st \<longrightarrow>
                      ieee_less (?mv op') (?mv (best_op st)) \<or> ?mv op' = NaN)"
      by (simp only: list_all_iff)
    have ex: "\<exists>op\<in>set [0, 1, 2, 3]. legal slide before op \<and> ieee_less ?low (?mv op)"
      using best(1,2,5) by blast
    have "\<exists>op\<in>set [0, 1, 2, 3]. legal slide before op \<and> ?a = action_slide op
           \<and> ieee_less ?low (?mv op)
           \<and> (\<forall>op'\<in>set [0, 1, 2, 3]. legal slide before op' \<longrightarrow>
                 \<not> ieee_less (?mv op) (?mv op')
                 \<and> (op' < op \<longrightarrow> ieee_less (?mv op') (?mv op) \<or> ?mv op' = NaN))
           \<and> ?ep = episode @ [\<lparr>after = snd (slide op before), reward = fst (slide op before)\<rparr>]"
      using best(1,2,3,4,5) mx' False by (intro bexI[of _ "best_op st"]) simp_all
    with ex show ?thesis by (simp only: if_True)
  qed
  from res ev sel show ?thesis by blast
qed

lemma two_moves_legal: "legal two_moves edge_board op = (op = 0 \<or> op = 1)"
  by (simp add: legal_def two_moves_def)

lemma two_moves_boards:
  "\<forall>op\<in>set [0, 1, 2, 3]. legal two_moves edge_board op \<longrightarrow>
      board_ok (snd (two_moves op edge_board))"
  by (simp add: two_moves_legal) (simp add: two_moves_def corner_board_ok side_board_ok)

theorem take_action_selects_witness:
  "net_ok high_net \<and> net_ok zero_net
   \<and> legal two_moves edge_board 0 \<and> legal two_moves edge_board 1
   \<and> move_value two_moves high_net edge_board 0 = Finite 16777216
   \<and> move_value two_moves high_net edge_board 1 = Finite 16777216
   \<and> take_action two_moves high_net [] edge_board
       = Some (action_slide 0, [\<lparr>after = corner_board, reward = 0\<rparr>])
   \<and> move_value two_moves zero_net edge_board 0 = Finite 0
   \<and> move_value two_moves zero_net edge_board 1 = Finite 1
   \<and> take_action two_moves zero_net [] edge_board
       = Some (action_slide 1, [\<lparr>after = side_board, reward = 1\<rparr>])"
proof -
  have hok: "net_ok high_net" by (simp add: high_net_def flat_net_ok)
  have hv: "move_value two_moves high_net edge_board 0 = Finite 16777216"
    "move_value two_moves high_net edge_board 1 = Finite 16777216"
    by (simp_all add: move_value_def two_moves_def score_sum_high_net high_sums)
  have zv: "move_value two_moves zero_net edge_board 0 = Finite 0"
    "move_value two_moves zero_net edge_board 1 = Finite 1"
    by (simp_all add: move_value_def two_moves_def score_sum_zero_net zero_sums)
  from take_action_selects[OF hok two_moves_boards, of "[]"] obtain a ep' where
    r: "take_action two_moves high_net [] edge_board = Some (a, ep')"
    and s: "if \<exists>op\<in>set [0, 1, 2, 3]. legal two_moves edge_board op
             \<and> ieee_less (Finite (- 10000000)) (move_value two_moves high_net edge_board op)
        then \<exists>op\<in>set [0, 1, 2, 3]. legal two_moves edge_board op \<and> a = action_slide op
           \<and> ieee_less (Finite (- 10000000)) (move_value two_moves high_net edge_board op)
           \<and> (\<forall>op'\<in>set [0, 1, 2, 3]. legal two_moves edge_board op' \<longrightarrow>
                 \<not> ieee_less (move_value two_moves high_net edge_board op)
                      (move_value two_moves high_net edge_board op')
                 \<and> (op' < op \<longrightarrow>
                      ieee_less (move_value two_moves high_net edge_board op')
                        (move_value two_moves high_net edge_board op)
                      \<or> move_value two_moves high_net edge_board op' = NaN))
           \<and> ep' = [] @ [\<lparr>after = snd (two_moves op edge_board), reward = fst (two_moves op edge_board)\<rparr>]
        else a \<notin> set (map action_slide [0, 1, 2, 3]) \<and> ep' = []"
    by blast
  from s have h: "a = action_slide 0 \<and> ep' = [\<lparr>after = corner_board, reward = 0\<rparr>]"
    by (simp add: two_moves_legal hv) (simp add: two_moves_def)
  from take_action_selects[OF zero_net_ok two_moves_boards, of "[]"] obtain a2 ep2 where
    r2: "take_action two_moves zero_net [] edge_board = Some (a2, ep2)"
    and s2: "if \<exists>op\<in>set [0, 1, 2, 3]. legal two_moves edge_board op
             \<and> ieee_less (Finite (- 10000000)) (move_value two_moves zero_net edge_board op)
        then \<exists>op\<in>set [0, 1, 2, 3]. legal two_moves edge_board op \<and> a2 = action_slide op
           \<and> ieee_less (Finite (- 10000000)) (move_value two_moves zero_net edge_board op)
           \<and> (\<forall>op'\<in>set [0, 1, 2, 3]. legal two_moves edge_board op' \<longrightarrow>
                 \<not> ieee_less (move_value two_moves zero_net edge_board op)
                      (move_value two_moves zero_net edge_board op')
                 \<and> (op' < op \<longrightarrow>
                      ieee_less (move_value two_moves zero_net edge_board op')
                        (move_value two_moves zero_net edge_board op)
                      \<or> move_value two_moves zero_net edge_board op' = NaN))
           \<and> ep2 = [] @ [\<lparr>after = snd (two_moves op edge_board), reward = fst (two_moves op edge_board)\<rparr>]
        else a2 \<notin> set (map action_slide [0, 1, 2, 3]) \<and> ep2 = []"
    by blast
  from s2 have z: "a2 = action_slide 1 \<and> ep2 = [\<lparr>after = side_board, reward = 1\<rparr>]"
    by (simp add: two_moves_legal zv) (simp add: two_moves_def)
  from r h r2 z hok zero_net_ok hv zv show ?thesis
    by (simp add: two_moves_legal)
qed

text \<open>The claim as stated fails in two ways. Where no legal move exceeds the initial sum:
  the slide 0 is legal with reward 0 and value \<open>-10000000\<close>, yet \<open>take_action\<close> returns
  \<open>action::slide(-1)\<close> and appends nothing. And where the sums differ only beyond single
  precision: with the evaluation \<open>2^24\<close> of both boards, the slide 1 of reward 1 has the
  greater sum \<open>1 + 2^24\<close>, which rounds to \<open>2^24\<close>, and \<open>take_action\<close> returns the slide 0
  of reward 0.\<close>

theorem take_action_selects_counterexample:
  "legal one_move edge_board 0
   \<and> move_value one_move low_net edge_board 0 = Finite (- 10000000)
   \<and> take_action one_move low_net [] edge_board = Some (action_slide (-1), [])
   \<and> legal two_moves edge_board 0 \<and> legal two_moves edge_board 1
   \<and> two_moves 0 edge_board = (0, corner_board) \<and> two_moves 1 edge_board = (1, side_board)
   \<and> evaluate_score high_net corner_board = Some (Finite 16777216)
   \<and> evaluate_score high_net side_board = Some (Finite 16777216)
   \<and> take_action two_moves high_net [] edge_board
       = Some (action_slide 0, [\<lparr>after = corner_board, reward = 0\<rparr>])"
proof -
  have lok: "net_ok low_net" by (simp add: low_net_def flat_net_ok)
  have ev: "evaluate_score low_net corner_board = Some (Finite (- 10000000))"
    using evaluate_score_ok[OF lok corner_board_ok] by (simp add: score_sum_low_net)
  have i: "float_add (float_of_int (- 1)) (float_of_int (- 9999999)) = Finite (- 10000000)"
    using initial_held by (simp add: held_def)
  have low: "legal one_move edge_board 0
   \<and> move_value one_move low_net edge_board 0 = Finite (- 10000000)
   \<and> take_action one_move low_net [] edge_board = Some (action_slide (-1), [])"
    by (simp add: legal_def move_value_def take_action_def one_move_def ev i zero_sums
        score_sum_low_net)
  have hok: "net_ok high_net" by (simp add: high_net_def flat_net_ok)
  have hc: "evaluate_score high_net corner_board = Some (Finite 16777216)"
    using evaluate_score_ok[OF hok corner_board_ok] by (simp add: score_sum_high_net)
  have hs: "evaluate_score high_net side_board = Some (Finite 16777216)"
    using evaluate_score_ok[OF hok side_board_ok] by (simp add: score_sum_high_net)
  have high: "take_action two_moves high_net [] edge_board
       = Some (action_slide 0, [\<lparr>after = corner_board, reward = 0\<rparr>])"
    by (simp add: take_action_def two_moves_def hc hs i high_sums)
  from low hc hs high show ?thesis
    by (simp add: two_moves_legal) (simp add: two_moves_def)
qed

text \<open>C6. Where every slide is illegal, \<open>take_action\<close> evaluates nothing, leaves the
  episode as it is and returns \<^verbatim>\<open>action::slide(-1)\<close>, the slide built from the
  initial \<open>best_op\<close>, where the sibling \<open>my_player\<close> returns the default
  \<^verbatim>\<open>action()\<close>.\<close>

theorem take_action_no_legal_move:
  "take_action stuck net episode full_board = Some (action_slide (-1), episode)
   \<and> my_player_take_action stuck full_board = action_null"
  by (simp add: take_action_def my_player_take_action_def stuck_def Let_def)

section \<open>MCTS agent (project3/pj-3-code-v1/agent.h, class mcts_player)\<close>

text \<open>
  The board of the placement game and its rules (board.h) and the actions (action.h) are
  not part of the sources. The board is a type parameter \<open>'b\<close>; the rules are the
  function \<open>place_at\<close>, which gives for a position, a piece and a board the board after
  the placement when \<^verbatim>\<open>action::place(i, who).apply(board)\<close> is \<^verbatim>\<open>board::legal\<close>,
  and \<open>None\<close> otherwise. A \<^verbatim>\<open>double\<close> is a value of \<open>ieee\<close> with the arithmetic of
  binary64, a \<^verbatim>\<open>float\<close> one with that of binary32; \<^verbatim>\<open>sqrt\<close> is correctly rounded,
  and \<^verbatim>\<open>log\<close>, the function of the C library, is the parameter \<open>clog\<close>.
\<close>

datatype piece_type = black | white | empty_piece

text \<open>\<^verbatim>\<open>action::place\<close>: the default \<^verbatim>\<open>action()\<close> or a placement of a piece.\<close>

datatype placement = no_action | place nat piece_type

definition my_opponent :: "piece_type \<Rightarrow> piece_type" where
  "my_opponent myself = (if myself = black then white else black)"

text \<open>
  \<^verbatim>\<open>struct node\<close>. The nodes live in a store, the list of all nodes allocated so far;
  a pointer is an index into the store, \<^verbatim>\<open>nullptr\<close> is \<open>None\<close>, and \<^verbatim>\<open>new node\<close>
  appends to the store. The counters \<open>wi\<close> and \<open>si\<close> are integers without a bound:
  the wrap-around of a 32-bit \<^verbatim>\<open>int\<close> is not modelled.
\<close>

record 'b node =
  parent :: "nat option"
  childrens :: "nat list"
  wi :: int
  si :: int
  isleaf :: bool
  state :: 'b
  self :: piece_type
  move_placed :: placement
  is_terminal :: bool

definition new_node :: "nat option \<Rightarrow> 'b \<Rightarrow> piece_type \<Rightarrow> 'b node" where
  "new_node p s me =
     \<lparr>parent = p, childrens = [], wi = 0, si = 0, isleaf = True, state = s, self = me,
      move_placed = no_action, is_terminal = False\<rparr>"

text \<open>The fields of the agent that the search reads, with the rules of the board:
  \<open>space_size\<close> and \<open>myop_space_size\<close> are the sizes of the vectors \<^verbatim>\<open>space\<close> and
  \<^verbatim>\<open>myop_space\<close>, which the constructor both makes \<^verbatim>\<open>board::size_x * board::size_y\<close>.\<close>

record 'b mcts_player =
  who :: piece_type
  opponent :: piece_type
  space_size :: nat
  myop_space_size :: nat
  place_at :: "nat \<Rightarrow> piece_type \<Rightarrow> 'b \<Rightarrow> 'b option"
  clog :: "ieee \<Rightarrow> ieee"

text \<open>\<^verbatim>\<open>float exploration_c=0.8\<close>: the \<^verbatim>\<open>double\<close> literal, converted to \<^verbatim>\<open>float\<close>.\<close>

definition exploration_c :: ieee where
  "exploration_c = double_to_float (round_double (8 / 10))"

text \<open>The constructor accepts the roles black and white only.\<close>

definition player_ok :: "'b mcts_player \<Rightarrow> bool" where
  "player_ok ag = ((who ag = black \<and> opponent ag = white) \<or> (who ag = white \<and> opponent ag = black))"

subsection \<open>Selection\<close>

text \<open>
  \<^verbatim>\<open>double best_child(node *child)\<close>. The parent is read only when the child has been
  visited. A dangling or null pointer gives \<open>None\<close>. Every operation is one of
  \<^verbatim>\<open>double\<close>; the \<^verbatim>\<open>float\<close> \<open>exploration_c\<close> is converted without a change of value.
\<close>

definition parent_si :: "'b node list \<Rightarrow> nat \<Rightarrow> int option" where
  "parent_si h child =
     (case parent (h ! child) of
        None \<Rightarrow> None
      | Some p \<Rightarrow> if p < length h then Some (si (h ! p)) else None)"

definition best_child :: "'b mcts_player \<Rightarrow> 'b node list \<Rightarrow> nat \<Rightarrow> ieee option" where
  "best_child ag h child =
     (if length h \<le> child then None
      else if who ag = self (h ! child) then
        (if si (h ! child) = 0 then Some (double_of_int 1000000)
         else (case parent_si h child of
                 None \<Rightarrow> None
               | Some psi \<Rightarrow>
                   Some (double_add
                           (double_div (double_of_int (wi (h ! child))) (double_of_int (si (h ! child))))
                           (double_mul exploration_c
                              (double_sqrt (double_div (clog ag (double_of_int psi))
                                 (double_of_int (si (h ! child)))))))))
      else
        (if si (h ! child) = 0 then Some (double_of_int 1000000)
         else (case parent_si h child of
                 None \<Rightarrow> None
               | Some psi \<Rightarrow>
                   Some (double_add
                           (double_sub (Finite 1)
                              (double_div (double_of_int (wi (h ! child))) (double_of_int (si (h ! child)))))
                           (double_mul exploration_c
                              (double_sqrt (double_div (clog ag (double_of_int psi))
                                 (double_of_int (si (h ! child))))))))))"

text \<open>The inner loop of \<^verbatim>\<open>selection\<close> over the children, \<open>i\<close> being the index of the
  next child. \<^verbatim>\<open>best\<close> is a \<^verbatim>\<open>float\<close>: it is compared as it is with the \<^verbatim>\<open>double\<close>
  score, and the score is rounded to \<^verbatim>\<open>float\<close> when it is stored in \<^verbatim>\<open>best\<close>.\<close>

fun best_index_loop ::
  "'b mcts_player \<Rightarrow> 'b node list \<Rightarrow> nat list \<Rightarrow> nat \<Rightarrow> ieee \<Rightarrow> nat \<Rightarrow> nat option" where
  "best_index_loop ag h [] i best best_index = Some best_index"
| "best_index_loop ag h (c # cs) i best best_index =
     (case best_child ag h c of
        None \<Rightarrow> None
      | Some v \<Rightarrow>
          if ieee_less best v then best_index_loop ag h cs (i + 1) (double_to_float v) i
          else best_index_loop ag h cs (i + 1) best best_index)"

text \<open>\<^verbatim>\<open>node *selection(node *current)\<close>: the descent may not end on a store that is
  not a tree, so it is a partial function.\<close>

partial_function (option) selection :: "'b mcts_player \<Rightarrow> 'b node list \<Rightarrow> nat \<Rightarrow> nat option" where
  "selection ag h current =
     (if length h \<le> current then None
      else if isleaf (h ! current) then Some current
      else (case best_index_loop ag h (childrens (h ! current)) 0 (float_of_int 0) 0 of
              None \<Rightarrow> None
            | Some best_index \<Rightarrow>
                if best_index < length (childrens (h ! current))
                then selection ag h (childrens (h ! current) ! best_index)
                else None))"

subsection \<open>Expansion\<close>

text \<open>
  The loop of \<^verbatim>\<open>expand\<close> over the positions \<open>i\<close>. The two branches of
  \<^verbatim>\<open>if(op==who)\<close> run the same body and differ in the bound of the loop only.
\<close>

fun expand_loop ::
  "'b mcts_player \<Rightarrow> piece_type \<Rightarrow> nat \<Rightarrow> nat list \<Rightarrow> 'b node list \<Rightarrow> 'b node list" where
  "expand_loop ag op current [] h = h"
| "expand_loop ag op current (i # rest) h =
     (case place_at ag i op (state (h ! current)) of
        None \<Rightarrow> expand_loop ag op current rest h
      | Some temp \<Rightarrow>
          (let newnode = length h;
               h1 = h @ [(new_node (Some current) temp op)\<lparr>move_placed := place i op\<rparr>];
               h2 = h1[current := (h1 ! current)\<lparr>childrens := childrens (h1 ! current) @ [newnode]\<rparr>]
           in expand_loop ag op current rest h2))"

text \<open>\<^verbatim>\<open>node* expand(node *current)\<close>; \<open>shuffle\<close> is what \<^verbatim>\<open>std::shuffle\<close> does to the
  children this time. The result is the store and the returned pointer.\<close>

definition expand ::
  "'b mcts_player \<Rightarrow> (nat list \<Rightarrow> nat list) \<Rightarrow> 'b node list \<Rightarrow> nat \<Rightarrow> ('b node list \<times> nat) option" where
  "expand ag shuffle h current =
     (if length h \<le> current then None
      else if is_terminal (h ! current) then Some (h, current)
      else
        (let op = my_opponent (self (h ! current));
             h' = expand_loop ag op current
                    [0..<(if op = who ag then space_size ag else myop_space_size ag)] h
         in if childrens (h' ! current) = []
            then Some (h'[current := (h' ! current)\<lparr>is_terminal := True\<rparr>], current)
            else
              (case shuffle (childrens (h' ! current)) of
                 [] \<Rightarrow> None
               | c # cs \<Rightarrow>
                   Some (h'[current := (h' ! current)\<lparr>childrens := c # cs, isleaf := False\<rparr>], c))))"

subsection \<open>Rollout\<close>

definition apply_move :: "'b mcts_player \<Rightarrow> placement \<Rightarrow> 'b \<Rightarrow> 'b option" where
  "apply_move ag move b = (case move of no_action \<Rightarrow> None | place i p \<Rightarrow> place_at ag i p b)"

text \<open>The scan of \<^verbatim>\<open>current_space\<close> for the first legal move: the board after it, or
  \<open>None\<close> when \<^verbatim>\<open>terminate\<close> stays 1.\<close>

fun first_legal :: "'b mcts_player \<Rightarrow> placement list \<Rightarrow> 'b \<Rightarrow> 'b option" where
  "first_legal ag [] temp = None"
| "first_legal ag (move # rest) temp =
     (case apply_move ag move temp of
        Some t \<Rightarrow> Some t
      | None \<Rightarrow> first_legal ag rest temp)"

text \<open>The \<^verbatim>\<open>while(1)\<close> loop of \<^verbatim>\<open>rollout\<close>.\<close>

partial_function (option) rollout_loop ::
  "'b mcts_player \<Rightarrow> placement list \<Rightarrow> placement list \<Rightarrow> 'b \<Rightarrow> piece_type \<Rightarrow> int option" where
  "rollout_loop ag my_space op_space temp myop =
     (case first_legal ag (if myop = who ag then my_space else op_space) temp of
        None \<Rightarrow> Some (if myop = who ag then 0 else 1)
      | Some temp' \<Rightarrow>
          rollout_loop ag my_space op_space temp' (if myop = who ag then opponent ag else who ag))"

text \<open>\<^verbatim>\<open>int rollout(node* current, ...)\<close>; \<open>my_space\<close> and \<open>op_space\<close> are the two
  vectors as the two calls of \<^verbatim>\<open>std::shuffle\<close> leave them.\<close>

definition rollout ::
  "'b mcts_player \<Rightarrow> 'b node list \<Rightarrow> nat \<Rightarrow> placement list \<Rightarrow> placement list \<Rightarrow> int option" where
  "rollout ag h current my_space op_space =
     (if length h \<le> current then None
      else
        (let myop = my_opponent (self (h ! current));
             temp = state (h ! current)
         in if is_terminal (h ! current) then Some (if who ag \<noteq> myop then 1 else 0)
            else rollout_loop ag my_space op_space temp myop))"

subsection \<open>Backpropagation\<close>

text \<open>\<^verbatim>\<open>void backpropogation(node *current, int score)\<close>: the walk up the parent
  pointers.\<close>

partial_function (option) backpropogation ::
  "'b node list \<Rightarrow> nat option \<Rightarrow> int \<Rightarrow> 'b node list option" where
  "backpropogation h current score =
     (case current of
        None \<Rightarrow> Some h
      | Some a \<Rightarrow>
          if length h \<le> a then None
          else backpropogation (h[a := (h ! a)\<lparr>wi := wi (h ! a) + score, si := si (h ! a) + 1\<rparr>])
                 (parent (h ! a)) score)"

subsection \<open>The search loop\<close>

text \<open>What the random engine decides in one iteration: the shuffle of the new children
  and the two shuffled move vectors of the rollout.\<close>

record choice =
  shuffle_children :: "nat list \<Rightarrow> nat list"
  my_space :: "placement list"
  opponent_space :: "placement list"

text \<open>One pass of the body of \<^verbatim>\<open>while(1)\<close> in \<^verbatim>\<open>take_action\<close> before the check of
  the clock; the root is the node 0. The result is the store and \<^verbatim>\<open>new_leaf\<close>.\<close>

definition iteration ::
  "'b mcts_player \<Rightarrow> choice \<Rightarrow> 'b node list \<Rightarrow> ('b node list \<times> nat) option" where
  "iteration ag ch h =
     (case selection ag h 0 of
        None \<Rightarrow> None
      | Some best_leaf \<Rightarrow>
          (case expand ag (shuffle_children ch) h best_leaf of
             None \<Rightarrow> None
           | Some (h1, new_leaf) \<Rightarrow>
               (case rollout ag h1 new_leaf (my_space ch) (opponent_space ch) of
                  None \<Rightarrow> None
                | Some score \<Rightarrow>
                    (case backpropogation h1 (Some new_leaf) score of
                       None \<Rightarrow> None
                     | Some h2 \<Rightarrow> Some (h2, new_leaf)))))"

text \<open>
  The clock: \<open>clock n\<close> is the value \<^verbatim>\<open>clock()\<close> returns at the check after iteration
  \<open>n\<close>, \<open>clock 0\<close> is \<^verbatim>\<open>start\<close>, and \<open>cps\<close> is \<^verbatim>\<open>CLOCKS_PER_SEC\<close>. The division is
  the integer division of C++, which truncates; the quotient is converted to \<^verbatim>\<open>double\<close>
  and compared with the literal \<^verbatim>\<open>0.999999\<close>.
\<close>

definition c_div :: "int \<Rightarrow> int \<Rightarrow> int" where
  "c_div a b = sgn a * sgn b * (\<bar>a\<bar> div \<bar>b\<bar>)"

definition time_up :: "(nat \<Rightarrow> int) \<Rightarrow> int \<Rightarrow> nat \<Rightarrow> bool" where
  "time_up clock cps n =
     ieee_less (round_double (999999 / 1000000))
       (double_of_int (c_div (clock n - clock 0) cps))"

partial_function (option) search_loop ::
  "'b mcts_player \<Rightarrow> (nat \<Rightarrow> int) \<Rightarrow> int \<Rightarrow> (nat \<Rightarrow> choice) \<Rightarrow> nat \<Rightarrow> 'b node list
     \<Rightarrow> 'b node list option" where
  "search_loop ag clock cps choices simulation_count h =
     (case iteration ag (choices (simulation_count + 1)) h of
        None \<Rightarrow> None
      | Some (h', new_leaf) \<Rightarrow>
          if (simulation_count + 1) mod 500 = 0 \<and> time_up clock cps (simulation_count + 1)
          then Some h'
          else search_loop ag clock cps choices (simulation_count + 1) h')"

text \<open>The final loop of \<^verbatim>\<open>take_action\<close> over the children of the root.\<close>

fun best_move_loop :: "'b node list \<Rightarrow> nat list \<Rightarrow> int \<Rightarrow> placement \<Rightarrow> placement option" where
  "best_move_loop h [] bestcount best_move = Some best_move"
| "best_move_loop h (c # cs) bestcount best_move =
     (if length h \<le> c then None
      else if si (h ! c) > bestcount
      then best_move_loop h cs (si (h ! c)) (move_placed (h ! c))
      else best_move_loop h cs bestcount best_move)"

definition mcts_take_action ::
  "'b mcts_player \<Rightarrow> (nat \<Rightarrow> int) \<Rightarrow> int \<Rightarrow> (nat \<Rightarrow> choice) \<Rightarrow> 'b \<Rightarrow> placement option" where
  "mcts_take_action ag clock cps choices s =
     (case search_loop ag clock cps choices 0 [new_node None s (opponent ag)] of
        None \<Rightarrow> None
      | Some h \<Rightarrow> best_move_loop h (childrens (h ! 0)) (-1) no_action)"

subsection \<open>Rollout terminates\<close>

text \<open>A placement game: every legal placement lowers a measure of the board, such as
  the number of its empty cells.\<close>

definition decreasing :: "'b mcts_player \<Rightarrow> ('b \<Rightarrow> nat) \<Rightarrow> bool" where
  "decreasing ag empties = (\<forall>i p b b'. place_at ag i p b = Some b' \<longrightarrow> empties b' < empties b)"

lemma first_legal_decreases:
  assumes "decreasing ag empties"
  shows "first_legal ag sp t = Some t' \<Longrightarrow> empties t' < empties t"
proof (induction sp)
  case Nil
  then show ?case by simp
next
  case (Cons move rest)
  show ?case
  proof (cases "apply_move ag move t")
    case None
    with Cons show ?thesis by simp
  next
    case (Some u)
    with Cons.prems have "apply_move ag move t = Some t'" by simp
    then show ?thesis
      using assms by (auto simp: apply_move_def decreasing_def split: placement.splits)
  qed
qed

lemma rollout_loop_terminates:
  assumes "decreasing ag empties"
  shows "\<exists>score. rollout_loop ag ms os temp myop = Some score \<and> (score = 0 \<or> score = 1)"
proof (induction "empties temp" arbitrary: temp myop rule: less_induct)
  case less
  show ?case
  proof (cases "first_legal ag (if myop = who ag then ms else os) temp")
    case None
    then show ?thesis
      by (subst rollout_loop.simps) simp
  next
    case (Some t)
    from first_legal_decreases[OF assms Some] have "empties t < empties temp" .
    from less[OF this, of "if myop = who ag then opponent ag else who ag"] Some
    show ?thesis
      by (subst rollout_loop.simps) simp
  qed
qed

text \<open>A stand-in for the rules: a board is the list of its cells and a placement is
  legal on every empty cell of the board.\<close>

definition fill_rules :: "nat \<Rightarrow> piece_type \<Rightarrow> piece_type list \<Rightarrow> piece_type list option" where
  "fill_rules i p b = (if i < length b \<and> b ! i = empty_piece \<and> p \<noteq> empty_piece then Some (b[i := p]) else None)"

definition count_empty :: "piece_type list \<Rightarrow> nat" where
  "count_empty b = length (filter (\<lambda>c. c = empty_piece) b)"

text \<open>A stand-in for \<^verbatim>\<open>log\<close>: the natural logarithm, correctly rounded.\<close>

definition library_log :: "ieee \<Rightarrow> ieee" where
  "library_log x =
     (case x of
        Finite a \<Rightarrow> if a < 0 then NaN else if a = 0 then MinusInf else round_double (ln a)
      | PlusInf \<Rightarrow> PlusInf
      | MinusInf \<Rightarrow> NaN
      | NaN \<Rightarrow> NaN)"

definition fill_player :: "nat \<Rightarrow> piece_type list mcts_player" where
  "fill_player n =
     \<lparr>who = black, opponent = white, space_size = n, myop_space_size = n, place_at = fill_rules,
      clog = library_log\<rparr>"

lemma count_empty_update:
  assumes "i < length b" "b ! i = empty_piece" "p \<noteq> empty_piece"
  shows "count_empty (b[i := p]) < count_empty b"
  using assms
proof (induction b arbitrary: i)
  case Nil
  then show ?case by simp
next
  case (Cons c b)
  show ?case
  proof (cases i)
    case 0
    with Cons.prems show ?thesis by (simp add: count_empty_def)
  next
    case (Suc j)
    with Cons.prems have "count_empty (b[j := p]) < count_empty b"
      by (intro Cons.IH) simp_all
    with Suc show ?thesis by (simp add: count_empty_def)
  qed
qed

lemma fill_decreasing: "decreasing (fill_player n) count_empty"
  by (auto simp: decreasing_def fill_player_def fill_rules_def count_empty_update split: if_splits)

lemma fill_player_ok: "player_ok (fill_player n)"
  by (simp add: player_ok_def fill_player_def)

text \<open>C10. In a placement game, where every legal placement lowers the number of empty
  cells of the board, \<open>rollout\<close> returns for every node of the store and every
  shuffling of the two move vectors, and what it returns is 0 or 1.\<close>

theorem rollout_terminates:
  assumes "decreasing ag empties" and "current < length h"
  shows "\<exists>score. rollout ag h current ms os = Some score \<and> (score = 0 \<or> score = 1)"
  using rollout_loop_terminates[OF assms(1)] assms(2)
  by (simp add: rollout_def Let_def)

theorem rollout_terminates_witness:
  "decreasing (fill_player 2) count_empty
   \<and> rollout (fill_player 2) [new_node None [empty_piece, empty_piece] white] 0
        [place 1 black, place 0 black] [place 0 white, place 1 white] = Some 0"
proof -
  have "rollout (fill_player 2) [new_node None [empty_piece, empty_piece] white] 0
        [place 1 black, place 0 black] [place 0 white, place 1 white] = Some 0"
    using rollout_terminates[OF fill_decreasing[of 2], where current = 0
        and h = "[new_node None [empty_piece, empty_piece] white]"
        and ms = "[place 1 black, place 0 black]" and os = "[place 0 white, place 1 white]"]
    by (simp add: rollout_def new_node_def my_opponent_def fill_player_def
        rollout_loop.simps apply_move_def fill_rules_def)
  then show ?thesis
    using fill_decreasing by simp
qed


subsection \<open>The tree in the store\<close>

text \<open>
  The shape of the store that the search keeps: node 0 is the root, every other node
  has an older node as its parent, the children of a node are nodes of the store whose
  parent it is, and a node that is not a leaf has children.
\<close>

definition tree_ok :: "'b node list \<Rightarrow> bool" where
  "tree_ok h =
     (0 < length h \<and> parent (h ! 0) = None
      \<and> (\<forall>a<length h. 0 < a \<longrightarrow> (\<exists>p<a. parent (h ! a) = Some p))
      \<and> (\<forall>a<length h. \<forall>c\<in>set (childrens (h ! a)). c < length h \<and> parent (h ! c) = Some a)
      \<and> (\<forall>a<length h. \<not> isleaf (h ! a) \<longrightarrow> childrens (h ! a) \<noteq> []))"

text \<open>The counters of every node: \<open>0 \<le> wi \<le> si\<close>.\<close>

definition counts_ok :: "'b node list \<Rightarrow> bool" where
  "counts_ok h = (\<forall>a<length h. 0 \<le> wi (h ! a) \<and> wi (h ! a) \<le> si (h ! a))"

text \<open>The parent chain from a node up to the root, the node itself first. The walk
  follows a parent pointer only to an older node, which is every parent pointer of a
  tree.\<close>

function path_to_root :: "'b node list \<Rightarrow> nat \<Rightarrow> nat list" where
  "path_to_root h a =
     (case parent (h ! a) of
        None \<Rightarrow> [a]
      | Some p \<Rightarrow> if p < a then a # path_to_root h p else [a])"
  by pat_completeness auto
termination
  by (relation "measure snd") auto

declare path_to_root.simps [simp del]

text \<open>One step of \<open>backpropogation\<close> on a node.\<close>

definition visit :: "int \<Rightarrow> 'b node \<Rightarrow> 'b node" where
  "visit score n = n\<lparr>wi := wi n + score, si := si n + 1\<rparr>"

lemma path_self: "a \<in> set (path_to_root h a)"
  by (subst path_to_root.simps) (simp split: option.splits)

lemma path_le: "b \<in> set (path_to_root h a) \<Longrightarrow> b \<le> a"
proof (induction a arbitrary: b rule: less_induct)
  case (less a)
  show ?case
  proof (cases "parent (h ! a)")
    case None
    with less.prems show ?thesis by (subst (asm) path_to_root.simps) simp
  next
    case (Some p)
    show ?thesis
    proof (cases "p < a")
      case True
      with less.prems Some have "b = a \<or> b \<in> set (path_to_root h p)"
        by (subst (asm) path_to_root.simps) simp
      then show ?thesis
      proof
        assume "b = a"
        then show ?thesis by simp
      next
        assume "b \<in> set (path_to_root h p)"
        from less.IH[OF True this] True show ?thesis by simp
      qed
    next
      case False
      with less.prems Some show ?thesis by (subst (asm) path_to_root.simps) simp
    qed
  qed
qed

lemma path_cong:
  "\<forall>b\<le>a. parent (h' ! b) = parent (h ! b) \<Longrightarrow> path_to_root h' a = path_to_root h a"
proof (induction a rule: less_induct)
  case (less a)
  show ?case
  proof (cases "parent (h ! a)")
    case None
    with less.prems show ?thesis
      by (subst path_to_root.simps, subst (2) path_to_root.simps) simp
  next
    case (Some p)
    have pa: "parent (h' ! a) = Some p" using less.prems Some by simp
    show ?thesis
    proof (cases "p < a")
      case True
      with less.prems have "\<forall>b\<le>p. parent (h' ! b) = parent (h ! b)" by simp
      from less.IH[OF True this] show ?thesis
        using Some pa True by (subst path_to_root.simps, subst (2) path_to_root.simps) simp
    next
      case False
      then show ?thesis
        using Some pa by (subst path_to_root.simps, subst (2) path_to_root.simps) simp
    qed
  qed
qed

lemma path_root:
  assumes "tree_ok h"
  shows "a < length h \<Longrightarrow> 0 \<in> set (path_to_root h a)"
proof (induction a rule: less_induct)
  case (less a)
  show ?case
  proof (cases "a = 0")
    case True
    then show ?thesis using path_self[of 0 h] by simp
  next
    case False
    with assms less.prems obtain p where p: "p < a" "parent (h ! a) = Some p"
      by (auto simp: tree_ok_def)
    from less.IH[OF p(1)] less.prems p(1) have "0 \<in> set (path_to_root h p)" by simp
    then show ?thesis
      using p by (subst path_to_root.simps) simp
  qed
qed

lemma path_in_store:
  "a < length h \<Longrightarrow> b \<in> set (path_to_root h a) \<Longrightarrow> b < length h"
  using path_le[of b h a] by simp

text \<open>What \<open>backpropogation\<close> does to a store whose parent pointers lead to older
  nodes.\<close>

lemma backpropogation_path:
  "a < length h \<Longrightarrow> \<forall>b\<le>a. \<forall>p. parent (h ! b) = Some p \<longrightarrow> p < b \<Longrightarrow>
   \<exists>h'. backpropogation h (Some a) score = Some h' \<and> length h' = length h
     \<and> (\<forall>b<length h. h' ! b
           = (if b \<in> set (path_to_root h a) then visit score (h ! b) else h ! b))"
proof (induction a arbitrary: h rule: less_induct)
  case (less a)
  let ?h1 = "h[a := (h ! a)\<lparr>wi := wi (h ! a) + score, si := si (h ! a) + 1\<rparr>]"
  have h1a: "?h1 ! a = visit score (h ! a)"
    using less.prems(1) by (simp add: visit_def)
  have step: "backpropogation h (Some a) score = backpropogation ?h1 (parent (h ! a)) score"
    using less.prems(1) by (subst backpropogation.simps) simp
  show ?case
  proof (cases "parent (h ! a)")
    case None
    have "path_to_root h a = [a]" using None by (subst path_to_root.simps) simp
    moreover have "backpropogation h (Some a) score = Some ?h1"
      using step None by (simp add: backpropogation.simps)
    ultimately show ?thesis
      using less.prems(1) by (auto simp: visit_def nth_list_update)
  next
    case (Some p)
    with less.prems(2) have pa: "p < a" by blast
    have par: "\<forall>b. parent (?h1 ! b) = parent (h ! b)"
      using less.prems(1) by (simp add: nth_list_update)
    have "p < length ?h1" using pa less.prems(1) by simp
    moreover have "\<forall>b\<le>p. \<forall>q. parent (?h1 ! b) = Some q \<longrightarrow> q < b"
      using less.prems(2) pa par by simp
    ultimately obtain h' where
      h': "backpropogation ?h1 (Some p) score = Some h'" "length h' = length ?h1"
      "\<forall>b<length ?h1. h' ! b
           = (if b \<in> set (path_to_root ?h1 p) then visit score (?h1 ! b) else ?h1 ! b)"
      using less.IH[OF pa, of ?h1] by blast
    have pc: "path_to_root ?h1 p = path_to_root h p"
      by (rule path_cong) (simp add: par)
    have pth: "path_to_root h a = a # path_to_root h p"
      using Some pa by (subst path_to_root.simps) simp
    have notin: "a \<notin> set (path_to_root h p)"
      using path_le[of a h p] pa by auto
    have "\<forall>b<length h. h' ! b
           = (if b \<in> set (path_to_root h a) then visit score (h ! b) else h ! b)"
    proof (intro allI impI)
      fix b assume b: "b < length h"
      show "h' ! b = (if b \<in> set (path_to_root h a) then visit score (h ! b) else h ! b)"
      proof (cases "b = a")
        case True
        then show ?thesis using h'(3) b notin pc pth h1a by simp
      next
        case False
        then show ?thesis using h'(3) b pc pth by (simp add: nth_list_update)
      qed
    qed
    then show ?thesis
      using step Some h'(1,2) by simp
  qed
qed

subsection \<open>Selection reaches a leaf\<close>

lemma best_index_loop_range:
  "\<forall>c\<in>set cs. best_child ag h c \<noteq> None \<Longrightarrow>
   \<exists>k. best_index_loop ag h cs i best bi = Some k \<and> (k = bi \<or> (i \<le> k \<and> k < i + length cs))"
proof (induction cs arbitrary: i best bi)
  case Nil
  then show ?case by simp
next
  case (Cons c cs)
  then obtain v where v: "best_child ag h c = Some v" by auto
  from Cons.prems have rest: "\<forall>c\<in>set cs. best_child ag h c \<noteq> None" by simp
  show ?case
  proof (cases "ieee_less best v")
    case True
    from Cons.IH[OF rest, of "i + 1" "double_to_float v" i] show ?thesis
      using v True by auto
  next
    case False
    from Cons.IH[OF rest, of "i + 1" best bi] show ?thesis
      using v False by auto
  qed
qed

lemma child_of_tree:
  assumes "tree_ok h" "a < length h" "c \<in> set (childrens (h ! a))"
  shows "c < length h" "parent (h ! c) = Some a" "a < c"
proof -
  from assms show c: "c < length h" and p: "parent (h ! c) = Some a"
    by (auto simp: tree_ok_def)
  have "parent (h ! 0) = None" using assms(1) by (simp add: tree_ok_def)
  with p have "c \<noteq> 0" by (cases "c = 0") simp_all
  with assms(1) c obtain q where "q < c" "parent (h ! c) = Some q"
    by (auto simp: tree_ok_def)
  with p show "a < c" by simp
qed

lemma best_child_defined:
  assumes "tree_ok h" "a < length h" "c \<in> set (childrens (h ! a))"
  shows "best_child ag h c \<noteq> None"
  using child_of_tree[OF assms] assms(2)
  by (simp add: best_child_def parent_si_def)

lemma selection_leaf:
  assumes "tree_ok h"
  shows "current < length h \<Longrightarrow>
    \<exists>leaf. selection ag h current = Some leaf \<and> leaf < length h \<and> isleaf (h ! leaf)"
proof (induction "length h - current" arbitrary: current rule: less_induct)
  case less
  show ?case
  proof (cases "isleaf (h ! current)")
    case True
    then show ?thesis
      using less.prems by (subst selection.simps) simp
  next
    case False
    let ?cs = "childrens (h ! current)"
    have ne: "?cs \<noteq> []" using assms less.prems False by (simp add: tree_ok_def)
    have "\<forall>c\<in>set ?cs. best_child ag h c \<noteq> None"
      using best_child_defined[OF assms less.prems] by blast
    from best_index_loop_range[OF this, of 0 "float_of_int 0" 0] obtain k where
      k: "best_index_loop ag h ?cs 0 (float_of_int 0) 0 = Some k" "k < length ?cs"
      using ne by auto
    then have c: "?cs ! k \<in> set ?cs" by simp
    note ch = child_of_tree[OF assms less.prems c]
    have "length h - ?cs ! k < length h - current" using ch(1,3) by linarith
    from less.hyps[OF this ch(1)] obtain leaf where
      "selection ag h (?cs ! k) = Some leaf" "leaf < length h" "isleaf (h ! leaf)"
      by blast
    then show ?thesis
      using less.prems False k by (subst selection.simps) simp
  qed
qed

subsection \<open>Expansion keeps the tree\<close>

text \<open>A store grown from another: the old nodes keep their parent, counters, board and
  side, and the new nodes have never been visited.\<close>

definition grown :: "'b node list \<Rightarrow> 'b node list \<Rightarrow> bool" where
  "grown h h' =
     (length h \<le> length h'
      \<and> (\<forall>a<length h. parent (h' ! a) = parent (h ! a) \<and> wi (h' ! a) = wi (h ! a)
            \<and> si (h' ! a) = si (h ! a) \<and> state (h' ! a) = state (h ! a)
            \<and> self (h' ! a) = self (h ! a))
      \<and> (\<forall>a. length h \<le> a \<and> a < length h' \<longrightarrow> wi (h' ! a) = 0 \<and> si (h' ! a) = 0))"

lemma grown_refl: "grown h h"
  by (simp add: grown_def)

lemma grown_trans:
  assumes "grown h h'" "grown h' h''"
  shows "grown h h''"
proof -
  have len: "length h \<le> length h'" "length h' \<le> length h''"
    using assms by (simp_all add: grown_def)
  have old: "\<forall>a<length h. parent (h'' ! a) = parent (h ! a) \<and> wi (h'' ! a) = wi (h ! a)
            \<and> si (h'' ! a) = si (h ! a) \<and> state (h'' ! a) = state (h ! a)
            \<and> self (h'' ! a) = self (h ! a)"
  proof (intro allI impI)
    fix a assume a: "a < length h"
    then have "a < length h'" using len(1) by simp
    with a assms show "parent (h'' ! a) = parent (h ! a) \<and> wi (h'' ! a) = wi (h ! a)
            \<and> si (h'' ! a) = si (h ! a) \<and> state (h'' ! a) = state (h ! a)
            \<and> self (h'' ! a) = self (h ! a)"
      by (simp add: grown_def)
  qed
  have new: "\<forall>a. length h \<le> a \<and> a < length h'' \<longrightarrow> wi (h'' ! a) = 0 \<and> si (h'' ! a) = 0"
  proof (intro allI impI)
    fix a assume a: "length h \<le> a \<and> a < length h''"
    show "wi (h'' ! a) = 0 \<and> si (h'' ! a) = 0"
    proof (cases "a < length h'")
      case True
      with a assms(1) have "wi (h' ! a) = 0 \<and> si (h' ! a) = 0" by (simp add: grown_def)
      with True assms(2) show ?thesis by (simp add: grown_def)
    next
      case False
      with a assms(2) show ?thesis by (simp add: grown_def)
    qed
  qed
  from len old new show ?thesis by (simp add: grown_def)
qed

text \<open>The store after one \<^verbatim>\<open>new node\<close> and \<^verbatim>\<open>push_back\<close> of \<open>expand\<close>.\<close>

definition add_child :: "'b node list \<Rightarrow> nat \<Rightarrow> 'b \<Rightarrow> piece_type \<Rightarrow> nat \<Rightarrow> 'b node list" where
  "add_child h current temp op i =
     (h @ [(new_node (Some current) temp op)\<lparr>move_placed := place i op\<rparr>])
       [current := (h ! current)\<lparr>childrens := childrens (h ! current) @ [length h]\<rparr>]"

lemma expand_loop_step:
  assumes "current < length h"
  shows "expand_loop ag op current (i # rest) h =
    (case place_at ag i op (state (h ! current)) of
       None \<Rightarrow> expand_loop ag op current rest h
     | Some temp \<Rightarrow> expand_loop ag op current rest (add_child h current temp op i))"
  using assms by (simp add: add_child_def Let_def nth_append split: option.splits)

lemma add_child_nth:
  assumes "current < length h"
  shows "length (add_child h current temp op i) = Suc (length h)"
    and "a < length h \<Longrightarrow> a \<noteq> current \<Longrightarrow> add_child h current temp op i ! a = h ! a"
    and "add_child h current temp op i ! current
          = (h ! current)\<lparr>childrens := childrens (h ! current) @ [length h]\<rparr>"
    and "add_child h current temp op i ! length h
          = (new_node (Some current) temp op)\<lparr>move_placed := place i op\<rparr>"
  using assms by (simp_all add: add_child_def nth_append nth_list_update)

lemma add_child_tree:
  assumes "tree_ok h" "current < length h"
  shows "tree_ok (add_child h current temp op i)"
proof -
  let ?h = "add_child h current temp op i"
  note n = add_child_nth[OF assms(2), where temp = temp and op = op and i = i]
  have node: "\<And>a. a < length ?h \<Longrightarrow>
      (a < length h \<and> a \<noteq> current \<and> ?h ! a = h ! a)
      \<or> (a = current \<and> ?h ! a = (h ! current)\<lparr>childrens := childrens (h ! current) @ [length h]\<rparr>)
      \<or> (a = length h \<and> ?h ! a = (new_node (Some current) temp op)\<lparr>move_placed := place i op\<rparr>)"
  proof -
    fix a assume "a < length ?h"
    then have "a < length h \<or> a = length h" using n(1) by auto
    then show "(a < length h \<and> a \<noteq> current \<and> ?h ! a = h ! a)
      \<or> (a = current \<and> ?h ! a = (h ! current)\<lparr>childrens := childrens (h ! current) @ [length h]\<rparr>)
      \<or> (a = length h \<and> ?h ! a = (new_node (Some current) temp op)\<lparr>move_placed := place i op\<rparr>)"
      using n(2,3,4) by (cases "a = current") auto
  qed
  have par: "\<And>a. a < length h \<Longrightarrow> parent (?h ! a) = parent (h ! a)"
  proof -
    fix a assume "a < length h"
    then show "parent (?h ! a) = parent (h ! a)"
      using n(2,3) by (cases "a = current") simp_all
  qed
  have newpar: "parent (?h ! length h) = Some current"
    using n(4) by (simp add: new_node_def)
  have c1: "0 < length ?h" "parent (?h ! 0) = None"
    using assms(1) n(1) par by (simp_all add: tree_ok_def)
  have c2: "\<forall>a<length ?h. 0 < a \<longrightarrow> (\<exists>p<a. parent (?h ! a) = Some p)"
  proof (intro allI impI)
    fix a assume a: "a < length ?h" "0 < a"
    show "\<exists>p<a. parent (?h ! a) = Some p"
    proof (cases "a < length h")
      case True
      then show ?thesis using assms(1) a(2) par by (simp add: tree_ok_def)
    next
      case False
      then have "a = length h" using a(1) n(1) by simp
      then show ?thesis using newpar assms(2) by simp
    qed
  qed
  have c3: "\<forall>a<length ?h. \<forall>c\<in>set (childrens (?h ! a)). c < length ?h \<and> parent (?h ! c) = Some a"
  proof (intro allI impI ballI)
    fix a c assume a: "a < length ?h" and c: "c \<in> set (childrens (?h ! a))"
    from node[OF a] show "c < length ?h \<and> parent (?h ! c) = Some a"
    proof (elim disjE conjE)
      assume "a < length h" "a \<noteq> current" "?h ! a = h ! a"
      with c assms(1) have "c < length h \<and> parent (h ! c) = Some a"
        by (simp add: tree_ok_def)
      then show ?thesis using par n(1) by simp
    next
      assume e: "a = current" "?h ! a = (h ! current)\<lparr>childrens := childrens (h ! current) @ [length h]\<rparr>"
      with c have "c \<in> set (childrens (h ! current)) \<or> c = length h" by auto
      then show ?thesis
      proof
        assume "c \<in> set (childrens (h ! current))"
        with assms have "c < length h \<and> parent (h ! c) = Some current"
          by (simp add: tree_ok_def)
        then show ?thesis using par n(1) e(1) by simp
      next
        assume "c = length h"
        then show ?thesis using newpar n(1) e(1) by simp
      qed
    next
      assume "a = length h" "?h ! a = (new_node (Some current) temp op)\<lparr>move_placed := place i op\<rparr>"
      with c show ?thesis by (simp add: new_node_def)
    qed
  qed
  have c4: "\<forall>a<length ?h. \<not> isleaf (?h ! a) \<longrightarrow> childrens (?h ! a) \<noteq> []"
  proof (intro allI impI)
    fix a assume a: "a < length ?h" and l: "\<not> isleaf (?h ! a)"
    from node[OF a] show "childrens (?h ! a) \<noteq> []"
    proof (elim disjE conjE)
      assume "a < length h" "a \<noteq> current" "?h ! a = h ! a"
      with l assms(1) show ?thesis by (simp add: tree_ok_def)
    next
      assume "a = current" "?h ! a = (h ! current)\<lparr>childrens := childrens (h ! current) @ [length h]\<rparr>"
      then show ?thesis by simp
    next
      assume "a = length h" "?h ! a = (new_node (Some current) temp op)\<lparr>move_placed := place i op\<rparr>"
      with l show ?thesis by (simp add: new_node_def)
    qed
  qed
  from c1 c2 c3 c4 show ?thesis
    unfolding tree_ok_def by blast
qed

lemma add_child_grown:
  assumes "current < length h"
  shows "grown h (add_child h current temp op i)"
proof -
  note n = add_child_nth[OF assms, where temp = temp and op = op and i = i]
  have "\<forall>a<length h. parent (add_child h current temp op i ! a) = parent (h ! a)
          \<and> wi (add_child h current temp op i ! a) = wi (h ! a)
          \<and> si (add_child h current temp op i ! a) = si (h ! a)
          \<and> state (add_child h current temp op i ! a) = state (h ! a)
          \<and> self (add_child h current temp op i ! a) = self (h ! a)"
  proof (intro allI impI)
    fix a assume "a < length h"
    then show "parent (add_child h current temp op i ! a) = parent (h ! a)
          \<and> wi (add_child h current temp op i ! a) = wi (h ! a)
          \<and> si (add_child h current temp op i ! a) = si (h ! a)
          \<and> state (add_child h current temp op i ! a) = state (h ! a)
          \<and> self (add_child h current temp op i ! a) = self (h ! a)"
      using n(2,3) by (cases "a = current") simp_all
  qed
  moreover have "\<forall>a. length h \<le> a \<and> a < length (add_child h current temp op i) \<longrightarrow>
      wi (add_child h current temp op i ! a) = 0 \<and> si (add_child h current temp op i ! a) = 0"
  proof (intro allI impI)
    fix a assume "length h \<le> a \<and> a < length (add_child h current temp op i)"
    then have "a = length h" using n(1) by simp
    then show "wi (add_child h current temp op i ! a) = 0 \<and> si (add_child h current temp op i ! a) = 0"
      using n(4) by (simp add: new_node_def)
  qed
  ultimately show ?thesis
    using n(1) by (simp add: grown_def)
qed

lemma grown_counts:
  assumes "grown h h'" "counts_ok h"
  shows "counts_ok h'"
proof -
  have "\<forall>a<length h'. 0 \<le> wi (h' ! a) \<and> wi (h' ! a) \<le> si (h' ! a)"
  proof (intro allI impI)
    fix a assume a: "a < length h'"
    show "0 \<le> wi (h' ! a) \<and> wi (h' ! a) \<le> si (h' ! a)"
    proof (cases "a < length h")
      case True
      with assms show ?thesis by (simp add: grown_def counts_ok_def)
    next
      case False
      with a assms(1) show ?thesis by (simp add: grown_def)
    qed
  qed
  then show ?thesis by (simp add: counts_ok_def)
qed

lemma expand_loop_tree:
  "tree_ok h \<Longrightarrow> current < length h \<Longrightarrow>
   tree_ok (expand_loop ag op current ps h) \<and> grown h (expand_loop ag op current ps h)"
proof (induction ps arbitrary: h)
  case Nil
  then show ?case by (simp add: grown_refl)
next
  case (Cons i ps)
  show ?case
  proof (cases "place_at ag i op (state (h ! current))")
    case None
    with Cons show ?thesis by (simp add: expand_loop_step del: expand_loop.simps)
  next
    case (Some temp)
    let ?h = "add_child h current temp op i"
    have t: "tree_ok ?h" by (rule add_child_tree[OF Cons.prems])
    have g: "grown h ?h" by (rule add_child_grown[OF Cons.prems(2)])
    have l: "current < length ?h" using Cons.prems(2) add_child_nth(1)[OF Cons.prems(2)] by simp
    from Cons.IH[OF t l] have "tree_ok (expand_loop ag op current ps ?h)"
      "grown ?h (expand_loop ag op current ps ?h)" by simp_all
    with g show ?thesis
      using Some Cons.prems(2)
      by (auto simp: expand_loop_step simp del: expand_loop.simps intro: grown_trans)
  qed
qed

text \<open>What \<^verbatim>\<open>std::shuffle\<close> may do: any rearrangement of the list.\<close>

definition shuffles :: "(nat list \<Rightarrow> nat list) \<Rightarrow> bool" where
  "shuffles f = (\<forall>xs. mset (f xs) = mset xs)"

lemma shuffles_set:
  assumes "shuffles f"
  shows "set (f xs) = set xs" "(f xs = []) = (xs = [])"
proof -
  have m: "mset (f xs) = mset xs" using assms by (simp add: shuffles_def)
  then show "set (f xs) = set xs" by (rule mset_eq_setD)
  from m show "(f xs = []) = (xs = [])" by (metis mset_zero_iff)
qed

lemma tree_ok_fields:
  assumes "tree_ok h" "length h' = length h"
    and "\<forall>a<length h. parent (h' ! a) = parent (h ! a)
            \<and> set (childrens (h' ! a)) = set (childrens (h ! a))
            \<and> (\<not> isleaf (h' ! a) \<longrightarrow> childrens (h' ! a) \<noteq> [])"
  shows "tree_ok h'"
proof -
  have c1: "0 < length h'" "parent (h' ! 0) = None"
    using assms by (simp_all add: tree_ok_def)
  have c2: "\<forall>a<length h'. 0 < a \<longrightarrow> (\<exists>p<a. parent (h' ! a) = Some p)"
    using assms by (simp add: tree_ok_def)
  have c3: "\<forall>a<length h'. \<forall>c\<in>set (childrens (h' ! a)). c < length h' \<and> parent (h' ! c) = Some a"
  proof (intro allI impI ballI)
    fix a c assume a: "a < length h'" and c: "c \<in> set (childrens (h' ! a))"
    then have "c \<in> set (childrens (h ! a))" using assms(2,3) by simp
    with a assms(1,2) have "c < length h \<and> parent (h ! c) = Some a" by (simp add: tree_ok_def)
    then show "c < length h' \<and> parent (h' ! c) = Some a" using assms(2,3) by simp
  qed
  have c4: "\<forall>a<length h'. \<not> isleaf (h' ! a) \<longrightarrow> childrens (h' ! a) \<noteq> []"
    using assms(2,3) by simp
  from c1 c2 c3 c4 show ?thesis unfolding tree_ok_def by blast
qed

lemma tree_ok_inner:
  assumes "tree_ok h" "a < length h" "\<not> isleaf (h ! a)"
  shows "childrens (h ! a) \<noteq> []"
  using assms by (simp add: tree_ok_def)

lemma grown_fields:
  assumes "grown h h'" "length h1 = length h'"
    and "\<forall>a<length h'. parent (h1 ! a) = parent (h' ! a) \<and> wi (h1 ! a) = wi (h' ! a)
            \<and> si (h1 ! a) = si (h' ! a) \<and> state (h1 ! a) = state (h' ! a)
            \<and> self (h1 ! a) = self (h' ! a)"
  shows "grown h h1"
proof -
  have "grown h' h1" using assms(2,3) by (simp add: grown_def)
  with assms(1) show ?thesis by (rule grown_trans)
qed

lemma expand_ok:
  assumes "tree_ok h" "leaf < length h" "shuffles f"
  shows "\<exists>h1 nl. expand ag f h leaf = Some (h1, nl) \<and> tree_ok h1 \<and> grown h h1 \<and> nl < length h1"
proof (cases "is_terminal (h ! leaf)")
  case True
  then show ?thesis
    using assms(1,2) by (simp add: expand_def grown_refl)
next
  case False
  let ?op = "my_opponent (self (h ! leaf))"
  let ?ps = "[0..<(if ?op = who ag then space_size ag else myop_space_size ag)]"
  let ?h' = "expand_loop ag ?op leaf ?ps h"
  from expand_loop_tree[OF assms(1,2), of ag ?op ?ps]
  have t: "tree_ok ?h'" and g: "grown h ?h'" by simp_all
  have l: "leaf < length ?h'" using g assms(2) by (simp add: grown_def)
  show ?thesis
  proof (cases "childrens (?h' ! leaf) = []")
    case True
    let ?h1 = "?h'[leaf := (?h' ! leaf)\<lparr>is_terminal := True\<rparr>]"
    have e: "expand ag f h leaf = Some (?h1, leaf)"
      using assms(2) False True by (simp add: expand_def Let_def)
    have f1: "\<forall>a<length ?h'. parent (?h1 ! a) = parent (?h' ! a)
            \<and> set (childrens (?h1 ! a)) = set (childrens (?h' ! a))
            \<and> (\<not> isleaf (?h1 ! a) \<longrightarrow> childrens (?h1 ! a) \<noteq> [])"
    proof (intro allI impI)
      fix a assume a: "a < length ?h'"
      show "parent (?h1 ! a) = parent (?h' ! a)
            \<and> set (childrens (?h1 ! a)) = set (childrens (?h' ! a))
            \<and> (\<not> isleaf (?h1 ! a) \<longrightarrow> childrens (?h1 ! a) \<noteq> [])"
        using a tree_ok_inner[OF t a] by (cases "a = leaf") (simp_all add: nth_list_update)
    qed
    have f2: "\<forall>a<length ?h'. parent (?h1 ! a) = parent (?h' ! a) \<and> wi (?h1 ! a) = wi (?h' ! a)
            \<and> si (?h1 ! a) = si (?h' ! a) \<and> state (?h1 ! a) = state (?h' ! a)
            \<and> self (?h1 ! a) = self (?h' ! a)"
      using l by (simp add: nth_list_update)
    have "tree_ok ?h1" by (rule tree_ok_fields[OF t _ f1]) simp
    moreover have "grown h ?h1" by (rule grown_fields[OF g _ f2]) simp
    ultimately show ?thesis using e l by simp
  next
    case ne: False
    then have "f (childrens (?h' ! leaf)) \<noteq> []" using shuffles_set(2)[OF assms(3)] by simp
    then obtain c cs where cs: "f (childrens (?h' ! leaf)) = c # cs"
      by (cases "f (childrens (?h' ! leaf))") simp_all
    have sc: "set (c # cs) = set (childrens (?h' ! leaf))"
      using shuffles_set(1)[OF assms(3), of "childrens (?h' ! leaf)"] cs by simp
    let ?h1 = "?h'[leaf := (?h' ! leaf)\<lparr>childrens := c # cs, isleaf := False\<rparr>]"
    have e: "expand ag f h leaf = Some (?h1, c)"
      using assms(2) False ne cs by (simp add: expand_def Let_def)
    have f1: "\<forall>a<length ?h'. parent (?h1 ! a) = parent (?h' ! a)
            \<and> set (childrens (?h1 ! a)) = set (childrens (?h' ! a))
            \<and> (\<not> isleaf (?h1 ! a) \<longrightarrow> childrens (?h1 ! a) \<noteq> [])"
    proof (intro allI impI)
      fix a assume a: "a < length ?h'"
      show "parent (?h1 ! a) = parent (?h' ! a)
            \<and> set (childrens (?h1 ! a)) = set (childrens (?h' ! a))
            \<and> (\<not> isleaf (?h1 ! a) \<longrightarrow> childrens (?h1 ! a) \<noteq> [])"
        using a sc tree_ok_inner[OF t a] by (cases "a = leaf") (simp_all add: nth_list_update)
    qed
    have f2: "\<forall>a<length ?h'. parent (?h1 ! a) = parent (?h' ! a) \<and> wi (?h1 ! a) = wi (?h' ! a)
            \<and> si (?h1 ! a) = si (?h' ! a) \<and> state (?h1 ! a) = state (?h' ! a)
            \<and> self (?h1 ! a) = self (?h' ! a)"
      using l by (simp add: nth_list_update)
    have "c \<in> set (childrens (?h' ! leaf))" using sc by auto
    then have "c < length ?h'" using t l by (simp add: tree_ok_def)
    moreover have "tree_ok ?h1" by (rule tree_ok_fields[OF t _ f1]) simp
    moreover have "grown h ?h1" by (rule grown_fields[OF g _ f2]) simp
    ultimately show ?thesis using e by simp
  qed
qed

subsection \<open>One iteration\<close>

lemma tree_parents_older:
  assumes "tree_ok h" "a < length h"
  shows "\<forall>b\<le>a. \<forall>p. parent (h ! b) = Some p \<longrightarrow> p < b"
proof (intro allI impI)
  fix b p assume b: "b \<le> a" and p: "parent (h ! b) = Some p"
  have "parent (h ! 0) = None" using assms(1) by (simp add: tree_ok_def)
  with p have "0 < b" by (cases "b = 0") simp_all
  moreover have "b < length h" using b assms(2) by simp
  ultimately obtain q where "q < b" "parent (h ! b) = Some q"
    using assms(1) by (auto simp: tree_ok_def)
  with p show "p < b" by simp
qed

lemma iteration_ok:
  assumes "tree_ok h" "counts_ok h" "decreasing ag empties" "shuffles (shuffle_children ch)"
  shows "\<exists>h2 nl score. iteration ag ch h = Some (h2, nl) \<and> tree_ok h2 \<and> counts_ok h2
     \<and> nl < length h2 \<and> length h \<le> length h2 \<and> (score = 0 \<or> score = 1)
     \<and> (\<forall>a<length h. parent (h2 ! a) = parent (h ! a))
     \<and> (\<forall>a<length h2.
           si (h2 ! a) = (if a < length h then si (h ! a) else 0)
                          + (if a \<in> set (path_to_root h2 nl) then 1 else 0)
         \<and> wi (h2 ! a) = (if a < length h then wi (h ! a) else 0)
                          + (if a \<in> set (path_to_root h2 nl) then score else 0))"
proof -
  have root: "0 < length h" using assms(1) by (simp add: tree_ok_def)
  from selection_leaf[OF assms(1) root, of ag] obtain leaf where
    sel: "selection ag h 0 = Some leaf" and leaf: "leaf < length h" by blast
  from expand_ok[OF assms(1) leaf assms(4), of ag] obtain h1 nl where
    ex: "expand ag (shuffle_children ch) h leaf = Some (h1, nl)" and t1: "tree_ok h1"
    and g: "grown h h1" and nl: "nl < length h1" by blast
  have "\<exists>score. rollout ag h1 nl (my_space ch) (opponent_space ch) = Some score
      \<and> (score = 0 \<or> score = 1)"
    using rollout_loop_terminates[OF assms(3)] nl by (simp add: rollout_def Let_def)
  then obtain score where
    ro: "rollout ag h1 nl (my_space ch) (opponent_space ch) = Some score"
    and sc: "score = 0 \<or> score = 1" by blast
  from backpropogation_path[OF nl tree_parents_older[OF t1 nl], of score] obtain h2 where
    bp: "backpropogation h1 (Some nl) score = Some h2" and len: "length h2 = length h1"
    and upd: "\<forall>b<length h1. h2 ! b
           = (if b \<in> set (path_to_root h1 nl) then visit score (h1 ! b) else h1 ! b)"
    by blast
  have it: "iteration ag ch h = Some (h2, nl)"
    using sel ex ro bp by (simp add: iteration_def)
  have same: "\<forall>b<length h1. parent (h2 ! b) = parent (h1 ! b)
            \<and> childrens (h2 ! b) = childrens (h1 ! b) \<and> isleaf (h2 ! b) = isleaf (h1 ! b)"
    using upd by (simp add: visit_def)
  have t2: "tree_ok h2"
  proof (rule tree_ok_fields[OF t1 len])
    show "\<forall>a<length h1. parent (h2 ! a) = parent (h1 ! a)
            \<and> set (childrens (h2 ! a)) = set (childrens (h1 ! a))
            \<and> (\<not> isleaf (h2 ! a) \<longrightarrow> childrens (h2 ! a) \<noteq> [])"
      using same tree_ok_inner[OF t1] by simp
  qed
  have pth: "path_to_root h2 nl = path_to_root h1 nl"
    by (rule path_cong) (use same nl in simp)
  have c1: "counts_ok h1" by (rule grown_counts[OF g assms(2)])
  have c2: "counts_ok h2"
    unfolding counts_ok_def
  proof (intro allI impI)
    fix a assume "a < length h2"
    then have a: "a < length h1" using len by simp
    with c1 have "0 \<le> wi (h1 ! a) \<and> wi (h1 ! a) \<le> si (h1 ! a)" by (simp add: counts_ok_def)
    with upd a sc show "0 \<le> wi (h2 ! a) \<and> wi (h2 ! a) \<le> si (h2 ! a)"
      by (auto simp: visit_def)
  qed
  have par: "\<forall>a<length h. parent (h2 ! a) = parent (h ! a)"
    using same g by (simp add: grown_def)
  have cnt: "\<forall>a<length h2.
           si (h2 ! a) = (if a < length h then si (h ! a) else 0)
                          + (if a \<in> set (path_to_root h2 nl) then 1 else 0)
         \<and> wi (h2 ! a) = (if a < length h then wi (h ! a) else 0)
                          + (if a \<in> set (path_to_root h2 nl) then score else 0)"
  proof (intro allI impI)
    fix a assume "a < length h2"
    then have a: "a < length h1" using len by simp
    have old: "si (h1 ! a) = (if a < length h then si (h ! a) else 0)"
      "wi (h1 ! a) = (if a < length h then wi (h ! a) else 0)"
      using g a by (auto simp: grown_def)
    show "si (h2 ! a) = (if a < length h then si (h ! a) else 0)
                          + (if a \<in> set (path_to_root h2 nl) then 1 else 0)
         \<and> wi (h2 ! a) = (if a < length h then wi (h ! a) else 0)
                          + (if a \<in> set (path_to_root h2 nl) then score else 0)"
      using upd a old pth by (simp add: visit_def)
  qed
  have "length h \<le> length h2" using g len by (simp add: grown_def)
  with it t2 c2 nl len sc par cnt show ?thesis by auto
qed

subsection \<open>Any number of iterations\<close>

text \<open>The store after \<open>k\<close> further passes of the loop body of \<^verbatim>\<open>take_action\<close>, begun
  with \<^verbatim>\<open>simulation_count\<close> \<open>= c\<close>, and the \<^verbatim>\<open>new_leaf\<close> of each pass in order.\<close>

fun iterate ::
  "'b mcts_player \<Rightarrow> (nat \<Rightarrow> choice) \<Rightarrow> nat \<Rightarrow> nat \<Rightarrow> 'b node list \<Rightarrow> ('b node list \<times> nat list) option"
where
  "iterate ag choices c 0 h = Some (h, [])"
| "iterate ag choices c (Suc k) h =
     (case iteration ag (choices (c + 1)) h of
        None \<Rightarrow> None
      | Some (h', new_leaf) \<Rightarrow>
          (case iterate ag choices (c + 1) k h' of
             None \<Rightarrow> None
           | Some (h'', leaves) \<Rightarrow> Some (h'', new_leaf # leaves)))"

text \<open>How many of the backpropagations begun at \<open>leaves\<close> pass through the node \<open>a\<close>.\<close>

definition passes :: "'b node list \<Rightarrow> nat list \<Rightarrow> nat \<Rightarrow> int" where
  "passes h leaves a = int (length (filter (\<lambda>l. a \<in> set (path_to_root h l)) leaves))"

lemma passes_append:
  "passes h (ls @ [l]) a = passes h ls a + (if a \<in> set (path_to_root h l) then 1 else 0)"
  by (simp add: passes_def)

lemma passes_grown:
  assumes "\<forall>l\<in>set ls. l < length h" and "\<forall>a<length h. parent (h' ! a) = parent (h ! a)"
  shows "passes h' ls a = (if a < length h then passes h ls a else 0)"
proof -
  have p: "\<forall>l\<in>set ls. path_to_root h' l = path_to_root h l"
  proof
    fix l assume "l \<in> set ls"
    then have "l < length h" using assms(1) by simp
    then have "\<forall>b\<le>l. parent (h' ! b) = parent (h ! b)" using assms(2) by simp
    then show "path_to_root h' l = path_to_root h l" by (rule path_cong)
  qed
  then have e: "filter (\<lambda>l. a \<in> set (path_to_root h' l)) ls
      = filter (\<lambda>l. a \<in> set (path_to_root h l)) ls"
    by (intro filter_cong) simp_all
  show ?thesis
  proof (cases "a < length h")
    case True
    then show ?thesis using e by (simp add: passes_def)
  next
    case False
    have "\<forall>l\<in>set ls. a \<notin> set (path_to_root h l)"
    proof
      fix l assume "l \<in> set ls"
      then have "l < length h" using assms(1) by simp
      with False show "a \<notin> set (path_to_root h l)" using path_le[of a h l] by auto
    qed
    then have "filter (\<lambda>l. a \<in> set (path_to_root h l)) ls = []"
      by (simp add: filter_empty_conv)
    with False e show ?thesis by (simp add: passes_def)
  qed
qed

lemma iterate_ok:
  assumes "decreasing ag empties" "\<forall>n. shuffles (shuffle_children (choices n))"
  shows "tree_ok h \<Longrightarrow> counts_ok h \<Longrightarrow> \<forall>l\<in>set pre. l < length h \<Longrightarrow>
    \<forall>a<length h. si (h ! a) = passes h pre a \<Longrightarrow>
    \<exists>h' leaves. iterate ag choices c k h = Some (h', leaves) \<and> length leaves = k
      \<and> tree_ok h' \<and> counts_ok h' \<and> length h \<le> length h'
      \<and> (\<forall>l\<in>set (pre @ leaves). l < length h')
      \<and> (\<forall>a<length h'. si (h' ! a) = passes h' (pre @ leaves) a)
      \<and> (\<forall>a<length h. parent (h' ! a) = parent (h ! a))"
proof (induction k arbitrary: c h pre)
  case 0
  then show ?case by simp
next
  case (Suc k)
  from assms(2) have sh: "shuffles (shuffle_children (choices (c + 1)))" by simp
  from iteration_ok[OF Suc.prems(1,2) assms(1) sh] obtain h2 nl where
    it: "iteration ag (choices (c + 1)) h = Some (h2, nl)" and t2: "tree_ok h2"
    and c2: "counts_ok h2" and nl: "nl < length h2" and len: "length h \<le> length h2"
    and par: "\<forall>a<length h. parent (h2 ! a) = parent (h ! a)"
    and cnt: "\<forall>a<length h2. si (h2 ! a) = (if a < length h then si (h ! a) else 0)
                          + (if a \<in> set (path_to_root h2 nl) then 1 else 0)"
    by blast
  have l2: "\<forall>l\<in>set (pre @ [nl]). l < length h2"
    using Suc.prems(3) len nl by auto
  have s2: "\<forall>a<length h2. si (h2 ! a) = passes h2 (pre @ [nl]) a"
  proof (intro allI impI)
    fix a assume a: "a < length h2"
    have "passes h2 pre a = (if a < length h then si (h ! a) else 0)"
      using passes_grown[OF Suc.prems(3) par, of a] Suc.prems(4) by simp
    with cnt a show "si (h2 ! a) = passes h2 (pre @ [nl]) a"
      by (simp add: passes_append)
  qed
  from Suc.IH[OF t2 c2 l2 s2, of "c + 1"] obtain h' leaves where
    r: "iterate ag choices (c + 1) k h2 = Some (h', leaves)" "length leaves = k"
    "tree_ok h'" "counts_ok h'" "length h2 \<le> length h'"
    "\<forall>l\<in>set ((pre @ [nl]) @ leaves). l < length h'"
    "\<forall>a<length h'. si (h' ! a) = passes h' ((pre @ [nl]) @ leaves) a"
    "\<forall>a<length h2. parent (h' ! a) = parent (h2 ! a)"
    by blast
  have "iterate ag choices c (Suc k) h = Some (h', nl # leaves)"
    using it r(1) by simp
  moreover have "\<forall>a<length h. parent (h' ! a) = parent (h ! a)"
    using par r(8) len by simp
  ultimately show ?case
    using r(2-7) len by (intro exI[of _ h'] exI[of _ "nl # leaves"]) simp
qed

lemma root_tree:
  "tree_ok [new_node None s me]" "counts_ok [new_node None s me]"
  by (simp_all add: tree_ok_def counts_ok_def new_node_def)

lemma search_reaches:
  assumes "decreasing ag empties" "\<forall>n. shuffles (shuffle_children (choices n))"
  shows "\<exists>h leaves. iterate ag choices 0 k [new_node None s me] = Some (h, leaves)
      \<and> length leaves = k \<and> tree_ok h \<and> counts_ok h \<and> (\<forall>l\<in>set leaves. l < length h)
      \<and> (\<forall>a<length h. si (h ! a) = passes h leaves a) \<and> si (h ! 0) = int k"
proof -
  have a: "\<forall>l\<in>set []. l < length [new_node None s me]" by simp
  have b: "\<forall>a<length [new_node None s me]. si ([new_node None s me] ! a) = passes [new_node None s me] [] a"
    by (simp add: passes_def new_node_def)
  from iterate_ok[OF assms root_tree a b, of 0 k] obtain h leaves where
    r: "iterate ag choices 0 k [new_node None s me] = Some (h, leaves)" "length leaves = k"
    "tree_ok h" "counts_ok h" "\<forall>l\<in>set leaves. l < length h"
    "\<forall>a<length h. si (h ! a) = passes h leaves a"
    by auto
  have "\<forall>l\<in>set leaves. 0 \<in> set (path_to_root h l)"
    using path_root[OF r(3)] r(5) by blast
  then have "filter (\<lambda>l. 0 \<in> set (path_to_root h l)) leaves = leaves"
    by (simp add: filter_id_conv)
  then have "passes h leaves 0 = int k" using r(2) by (simp add: passes_def)
  moreover have "0 < length h" using r(3) by (simp add: tree_ok_def)
  ultimately have "si (h ! 0) = int k" using r(6) by simp
  with r show ?thesis by blast
qed

text \<open>C4. On a tree, \<open>backpropogation\<close> from a node returns, adds the score to \<open>wi\<close>
  and 1 to \<open>si\<close> of exactly the nodes on the parent chain of that node, the node and
  the root among them, and leaves every other node as it is. In a placement game, after
  any number \<open>k\<close> of iterations of the search from a fresh root, with any shuffles,
  every node of the store has \<open>0 \<le> wi \<le> si\<close>, its \<open>si\<close> is the number of
  backpropagations that passed through it (so a node with \<open>si = 0\<close> was on none of the
  chains), and \<open>si\<close> of the root is \<open>k\<close>.\<close>

theorem backpropogation_counts:
  assumes "decreasing ag empties" "\<forall>n. shuffles (shuffle_children (choices n))"
  shows "(tree_ok h0 \<and> leaf < length h0 \<longrightarrow>
           (\<exists>h'. backpropogation h0 (Some leaf) score = Some h' \<and> length h' = length h0
              \<and> (\<forall>b<length h0. h' ! b
                    = (if b \<in> set (path_to_root h0 leaf)
                       then (h0 ! b)\<lparr>wi := wi (h0 ! b) + score, si := si (h0 ! b) + 1\<rparr>
                       else h0 ! b))
              \<and> leaf \<in> set (path_to_root h0 leaf) \<and> 0 \<in> set (path_to_root h0 leaf)))
    \<and> (\<exists>h leaves. iterate ag choices 0 k [new_node None s (opponent ag)] = Some (h, leaves)
          \<and> length leaves = k
          \<and> (\<forall>a<length h. 0 \<le> wi (h ! a) \<and> wi (h ! a) \<le> si (h ! a)
                \<and> si (h ! a) = int (length (filter (\<lambda>l. a \<in> set (path_to_root h l)) leaves)))
          \<and> si (h ! 0) = int k)"
proof -
  have A: "tree_ok h0 \<and> leaf < length h0 \<longrightarrow>
           (\<exists>h'. backpropogation h0 (Some leaf) score = Some h' \<and> length h' = length h0
              \<and> (\<forall>b<length h0. h' ! b
                    = (if b \<in> set (path_to_root h0 leaf)
                       then (h0 ! b)\<lparr>wi := wi (h0 ! b) + score, si := si (h0 ! b) + 1\<rparr>
                       else h0 ! b))
              \<and> leaf \<in> set (path_to_root h0 leaf) \<and> 0 \<in> set (path_to_root h0 leaf))"
  proof
    assume a: "tree_ok h0 \<and> leaf < length h0"
    then have t: "tree_ok h0" and l: "leaf < length h0" by simp_all
    from backpropogation_path[OF l tree_parents_older[OF t l], of score]
      path_self[of leaf h0] path_root[OF t l]
    show "\<exists>h'. backpropogation h0 (Some leaf) score = Some h' \<and> length h' = length h0
              \<and> (\<forall>b<length h0. h' ! b
                    = (if b \<in> set (path_to_root h0 leaf)
                       then (h0 ! b)\<lparr>wi := wi (h0 ! b) + score, si := si (h0 ! b) + 1\<rparr>
                       else h0 ! b))
              \<and> leaf \<in> set (path_to_root h0 leaf) \<and> 0 \<in> set (path_to_root h0 leaf)"
      unfolding visit_def by blast
  qed
  from search_reaches[OF assms, of k s "opponent ag"] obtain h leaves where
    r: "iterate ag choices 0 k [new_node None s (opponent ag)] = Some (h, leaves)"
    "length leaves = k" "counts_ok h" "\<forall>a<length h. si (h ! a) = passes h leaves a"
    "si (h ! 0) = int k"
    by blast
  have "\<forall>a<length h. 0 \<le> wi (h ! a) \<and> wi (h ! a) \<le> si (h ! a)
                \<and> si (h ! a) = int (length (filter (\<lambda>l. a \<in> set (path_to_root h l)) leaves))"
    using r(3,4) by (simp add: counts_ok_def passes_def)
  with r(1,2,5) have B: "\<exists>h leaves. iterate ag choices 0 k [new_node None s (opponent ag)] = Some (h, leaves)
          \<and> length leaves = k
          \<and> (\<forall>a<length h. 0 \<le> wi (h ! a) \<and> wi (h ! a) \<le> si (h ! a)
                \<and> si (h ! a) = int (length (filter (\<lambda>l. a \<in> set (path_to_root h l)) leaves)))
          \<and> si (h ! 0) = int k"
    by blast
  from A B show ?thesis by blast
qed

text \<open>A shuffle that leaves every order as it is, for a board of two cells.\<close>

definition plain_choice :: choice where
  "plain_choice =
     \<lparr>shuffle_children = (\<lambda>xs. xs),
      my_space = [place 0 black, place 1 black],
      opponent_space = [place 0 white, place 1 white]\<rparr>"

lemma plain_choice_shuffles: "\<forall>n. shuffles (shuffle_children ((\<lambda>n. plain_choice) n))"
  by (simp add: shuffles_def plain_choice_def)

lemma first_iteration:
  "iteration (fill_player 2) plain_choice [new_node None [empty_piece, empty_piece] white]
     = Some ([\<lparr>parent = None, childrens = [1, 2], wi = 0, si = 1, isleaf = False,
                state = [empty_piece, empty_piece], self = white, move_placed = no_action,
                is_terminal = False\<rparr>,
              \<lparr>parent = Some 0, childrens = [], wi = 0, si = 1, isleaf = True,
                state = [black, empty_piece], self = black, move_placed = place 0 black,
                is_terminal = False\<rparr>,
              \<lparr>parent = Some 0, childrens = [], wi = 0, si = 0, isleaf = True,
                state = [empty_piece, black], self = black, move_placed = place 1 black,
                is_terminal = False\<rparr>], 1)"
proof -
  let ?r = "new_node None [empty_piece, empty_piece] white"
  have sel: "selection (fill_player 2) [?r] 0 = Some 0"
    by (subst selection.simps) (simp add: new_node_def)
  have upt2: "[0..<2] = [0, Suc 0]" by (simp add: upt_rec)
  have ex: "expand (fill_player 2) (shuffle_children plain_choice) [?r] 0
     = Some ([?r\<lparr>childrens := [Suc 0, 2], isleaf := False\<rparr>,
              (new_node (Some 0) [black, empty_piece] black)\<lparr>move_placed := place 0 black\<rparr>,
              (new_node (Some 0) [empty_piece, black] black)\<lparr>move_placed := place (Suc 0) black\<rparr>], Suc 0)"
    by (simp add: expand_def Let_def new_node_def my_opponent_def fill_player_def upt2
        fill_rules_def plain_choice_def)
  have ro: "rollout (fill_player 2)
      [?r\<lparr>childrens := [Suc 0, 2], isleaf := False\<rparr>,
       (new_node (Some 0) [black, empty_piece] black)\<lparr>move_placed := place 0 black\<rparr>,
       (new_node (Some 0) [empty_piece, black] black)\<lparr>move_placed := place (Suc 0) black\<rparr>] (Suc 0)
      (my_space plain_choice) (opponent_space plain_choice) = Some 0"
    by (simp add: rollout_def new_node_def my_opponent_def fill_player_def plain_choice_def
        rollout_loop.simps apply_move_def fill_rules_def)
  have bp: "backpropogation
      [?r\<lparr>childrens := [Suc 0, 2], isleaf := False\<rparr>,
       (new_node (Some 0) [black, empty_piece] black)\<lparr>move_placed := place 0 black\<rparr>,
       (new_node (Some 0) [empty_piece, black] black)\<lparr>move_placed := place (Suc 0) black\<rparr>] (Some (Suc 0)) 0
     = Some [\<lparr>parent = None, childrens = [Suc 0, 2], wi = 0, si = 1, isleaf = False,
                state = [empty_piece, empty_piece], self = white, move_placed = no_action,
                is_terminal = False\<rparr>,
              \<lparr>parent = Some 0, childrens = [], wi = 0, si = 1, isleaf = True,
                state = [black, empty_piece], self = black, move_placed = place 0 black,
                is_terminal = False\<rparr>,
              \<lparr>parent = Some 0, childrens = [], wi = 0, si = 0, isleaf = True,
                state = [empty_piece, black], self = black, move_placed = place (Suc 0) black,
                is_terminal = False\<rparr>]"
    by (simp add: backpropogation.simps new_node_def)
  show ?thesis
    by (simp add: iteration_def sel ex ro bp)
qed

theorem backpropogation_counts_witness:
  "decreasing (fill_player 2) count_empty
   \<and> iterate (fill_player 2) (\<lambda>n. plain_choice) 0 1
        [new_node None [empty_piece, empty_piece] (opponent (fill_player 2))]
     = Some ([\<lparr>parent = None, childrens = [1, 2], wi = 0, si = 1, isleaf = False,
                state = [empty_piece, empty_piece], self = white, move_placed = no_action,
                is_terminal = False\<rparr>,
              \<lparr>parent = Some 0, childrens = [], wi = 0, si = 1, isleaf = True,
                state = [black, empty_piece], self = black, move_placed = place 0 black,
                is_terminal = False\<rparr>,
              \<lparr>parent = Some 0, childrens = [], wi = 0, si = 0, isleaf = True,
                state = [empty_piece, black], self = black, move_placed = place 1 black,
                is_terminal = False\<rparr>], [1])"
proof -
  have o: "opponent (fill_player 2) = white" by (simp add: fill_player_def)
  from backpropogation_counts[OF fill_decreasing[of 2] plain_choice_shuffles,
      where k = 1 and s = "[empty_piece, empty_piece]"]
  have "\<exists>h leaves. iterate (fill_player 2) (\<lambda>n. plain_choice) 0 1
        [new_node None [empty_piece, empty_piece] (opponent (fill_player 2))] = Some (h, leaves)"
    by blast
  then show ?thesis
    using fill_decreasing[of 2] first_iteration by (simp add: o)
qed


subsection \<open>UCB1 scores\<close>

text \<open>What the statements ask of \<^verbatim>\<open>log\<close>: on the whole numbers from 1 to \<open>INT_MAX\<close> its
  value is finite, not negative and not above its argument.\<close>

definition log_ok :: "(ieee \<Rightarrow> ieee) \<Rightarrow> bool" where
  "log_ok lg =
     (\<forall>n. 1 \<le> n \<and> n \<le> 2147483647 \<longrightarrow>
        (\<exists>l. lg (Finite (of_int n)) = Finite l \<and> 0 \<le> l \<and> l \<le> of_int n))"

text \<open>The side to act at a node: the side whose placements \<^verbatim>\<open>expand\<close> tries there and
  that moves first in a \<^verbatim>\<open>rollout\<close> from it, \<^verbatim>\<open>my_opponent(current->self)\<close>. The field
  \<open>self\<close> is the side that has placed the piece leading to the node.\<close>

definition to_act :: "'b node \<Rightarrow> piece_type" where
  "to_act n = my_opponent (self n)"

text \<open>The children \<open>cs\<close> of a node visited between 1 and \<open>INT_MAX\<close> times: each has
  counters \<open>0 \<le> wi \<le> si \<le> INT_MAX\<close>, was reached by a move of black or white, and is a
  leaf as long as it has not been visited.\<close>

definition counted_children :: "'b node list \<Rightarrow> nat \<Rightarrow> nat list \<Rightarrow> bool" where
  "counted_children h current cs =
     (current < length h \<and> 1 \<le> si (h ! current) \<and> si (h ! current) \<le> 2147483647
      \<and> list_all (\<lambda>c. c < length h \<and> parent (h ! c) = Some current
                       \<and> 0 \<le> wi (h ! c) \<and> wi (h ! c) \<le> si (h ! c) \<and> si (h ! c) \<le> 2147483647
                       \<and> self (h ! c) \<noteq> empty_piece
                       \<and> (si (h ! c) = 0 \<longrightarrow> isleaf (h ! c))) cs)"

text \<open>The score of the source, written out.\<close>

definition ucb1 :: "'b mcts_player \<Rightarrow> 'b node list \<Rightarrow> nat \<Rightarrow> nat \<Rightarrow> ieee" where
  "ucb1 ag h current c =
     (if si (h ! c) = 0 then Finite 1000000
      else if to_act (h ! c) = opponent ag
      then double_add
             (double_div (Finite (of_int (wi (h ! c)))) (Finite (of_int (si (h ! c)))))
             (double_mul exploration_c
                (double_sqrt (double_div (clog ag (Finite (of_int (si (h ! current)))))
                   (Finite (of_int (si (h ! c)))))))
      else double_add
             (double_sub (Finite 1)
                (double_div (Finite (of_int (wi (h ! c)))) (Finite (of_int (si (h ! c))))))
             (double_mul exploration_c
                (double_sqrt (double_div (clog ag (Finite (of_int (si (h ! current)))))
                   (Finite (of_int (si (h ! c))))))))"

lemma double_of_int_exact: "\<bar>n\<bar> < 9007199254740992 \<Longrightarrow> double_of_int n = Finite (of_int n)"
  by (simp add: double_of_int_def double_int)

lemma library_log_ok: "log_ok library_log"
  unfolding log_ok_def
proof (intro allI impI)
  fix n :: int assume n: "1 \<le> n \<and> n \<le> 2147483647"
  then have r: "1 \<le> real_of_int n" by simp
  have l0: "of_int 0 \<le> ln (real_of_int n)" using r by simp
  have "ln (real_of_int n) \<le> real_of_int n - 1" using r by (intro ln_le_minus_one) simp
  then have l1: "ln (real_of_int n) \<le> of_int n" by simp
  from double_between[OF l0 l1] n obtain y where
    "round_double (ln (real_of_int n)) = Finite y" "0 \<le> y" "y \<le> of_int n"
    by auto
  then show "\<exists>l. library_log (Finite (of_int n)) = Finite l \<and> 0 \<le> l \<and> l \<le> of_int n"
    using r by (simp add: library_log_def)
qed

lemma exploration_c_bounds: "\<exists>c. exploration_c = Finite c \<and> 0 \<le> c \<and> c \<le> 1"
proof -
  have "of_int 0 \<le> (8 / 10 :: real)" "(8 / 10 :: real) \<le> of_int 1" by simp_all
  from double_between[OF this] obtain d where
    d: "round_double (8 / 10) = Finite d" "of_int 0 \<le> d" "d \<le> of_int 1"
    by auto
  from float_between[OF d(2,3)] obtain c where
    "round_float d = Finite c" "0 \<le> c" "c \<le> 1"
    by auto
  with d(1) show ?thesis by (simp add: exploration_c_def double_to_float_def)
qed

lemma visited_score:
  fixes w s n :: int
  assumes "0 \<le> w" "w \<le> s" "1 \<le> s" "1 \<le> n" "n \<le> 2147483647" "log_ok lg"
  shows "\<exists>y. double_add (double_div (Finite (of_int w)) (Finite (of_int s)))
             (double_mul exploration_c
                (double_sqrt (double_div (lg (Finite (of_int n))) (Finite (of_int s)))))
           = Finite y \<and> 0 \<le> y \<and> y \<le> 46342"
    and "\<exists>y. double_add (double_sub (Finite 1) (double_div (Finite (of_int w)) (Finite (of_int s))))
             (double_mul exploration_c
                (double_sqrt (double_div (lg (Finite (of_int n))) (Finite (of_int s)))))
           = Finite y \<and> 0 \<le> y \<and> y \<le> 46342"
proof -
  have s: "1 \<le> real_of_int s" "real_of_int s \<noteq> 0" using assms(3) by simp_all
  have "of_int 0 \<le> real_of_int w / real_of_int s" using assms(1,3) by simp
  moreover have "real_of_int w / real_of_int s \<le> of_int 1"
    using assms(2,3) by (simp add: divide_le_eq_1)
  ultimately obtain r where
    r: "round_double (real_of_int w / real_of_int s) = Finite r" "0 \<le> r" "r \<le> 1"
    using double_between[of 0 "real_of_int w / real_of_int s" 1] by auto
  have dr: "double_div (Finite (of_int w)) (Finite (of_int s)) = Finite r"
    using r(1) s(2) by (simp add: double_div_def)
  have "of_int 0 \<le> 1 - r" "1 - r \<le> of_int 1" using r(2,3) by simp_all
  from double_between[OF this] obtain r' where
    r': "round_double (1 - r) = Finite r'" "0 \<le> r'" "r' \<le> 1"
    by auto
  have dr': "double_sub (Finite 1) (Finite r) = Finite r'"
    using r'(1) by (simp add: double_sub_def ieee_sub_def)
  from assms(4,5,6) obtain l where
    l: "lg (Finite (of_int n)) = Finite l" "0 \<le> l" "l \<le> of_int n"
    unfolding log_ok_def by blast
  have "of_int 0 \<le> l / real_of_int s" using l(2) s(1) by simp
  moreover have "l / real_of_int s \<le> l" using l(2) s(1) by (simp add: divide_le_eq mult_le_cancel_left1)
  then have "l / real_of_int s \<le> of_int 2147483647" using l(3) assms(5) by simp
  ultimately obtain q where
    q: "round_double (l / real_of_int s) = Finite q" "0 \<le> q" "q \<le> 2147483647"
    using double_between[of 0 "l / real_of_int s" 2147483647] by auto
  have dq: "double_div (lg (Finite (of_int n))) (Finite (of_int s)) = Finite q"
    using l(1) q(1) s(2) by (simp add: double_div_def)
  have "of_int 0 \<le> sqrt q" using q(2) by simp
  moreover have "q \<le> 46341\<^sup>2" using q(3) by simp
  then have "sqrt q \<le> 46341" by (intro real_le_lsqrt) (use q(2) in simp_all)
  then have "sqrt q \<le> of_int 46341" by simp
  ultimately obtain e where
    e: "round_double (sqrt q) = Finite e" "0 \<le> e" "e \<le> 46341"
    using double_between[of 0 "sqrt q" 46341] by auto
  have de: "double_sqrt (Finite q) = Finite e"
    using e(1) q(2) by (simp add: double_sqrt_def)
  from exploration_c_bounds obtain c where c: "exploration_c = Finite c" "0 \<le> c" "c \<le> 1"
    by blast
  have "of_int 0 \<le> c * e" using c(2) e(2) by simp
  moreover have "c * e \<le> 1 * e" using c(3) e(2) by (intro mult_right_mono) simp_all
  then have "c * e \<le> of_int 46341" using e(3) by simp
  ultimately obtain m where
    m: "round_double (c * e) = Finite m" "0 \<le> m" "m \<le> 46341"
    using double_between[of 0 "c * e" 46341] by auto
  have dm: "double_mul exploration_c (Finite e) = Finite m"
    unfolding c(1) double_mul_def using m(1) by simp
  have "of_int 0 \<le> r + m" "r + m \<le> of_int 46342" using r(2,3) m(2,3) by simp_all
  from double_between[OF this] obtain y where
    y: "round_double (r + m) = Finite y" "0 \<le> y" "y \<le> 46342"
    by auto
  have "of_int 0 \<le> r' + m" "r' + m \<le> of_int 46342" using r'(2,3) m(2,3) by simp_all
  from double_between[OF this] obtain y' where
    y': "round_double (r' + m) = Finite y'" "0 \<le> y'" "y' \<le> 46342"
    by auto
  show "\<exists>y. double_add (double_div (Finite (of_int w)) (Finite (of_int s)))
             (double_mul exploration_c
                (double_sqrt (double_div (lg (Finite (of_int n))) (Finite (of_int s)))))
           = Finite y \<and> 0 \<le> y \<and> y \<le> 46342"
    using dr dq de dm y by (simp add: double_add_def)
  show "\<exists>y. double_add (double_sub (Finite 1) (double_div (Finite (of_int w)) (Finite (of_int s))))
             (double_mul exploration_c
                (double_sqrt (double_div (lg (Finite (of_int n))) (Finite (of_int s)))))
           = Finite y \<and> 0 \<le> y \<and> y \<le> 46342"
    using dr dr' dq de dm y' by (simp add: double_add_def)
qed

lemma side_to_act:
  assumes "player_ok ag" "self n \<noteq> empty_piece"
  shows "(who ag = self n) = (to_act n = opponent ag)"
    and "to_act n = opponent ag \<or> to_act n = who ag"
  using assms by (cases "self n"; auto simp: player_ok_def to_act_def my_opponent_def)+

lemma best_child_ucb1:
  assumes "counted_children h current cs" "c \<in> set cs" "player_ok ag" "log_ok (clog ag)"
  shows "best_child ag h c = Some (ucb1 ag h current c)"
    and "si (h ! c) \<noteq> 0 \<Longrightarrow> \<exists>y. ucb1 ag h current c = Finite y \<and> 0 \<le> y \<and> y \<le> 46342"
    and "si (h ! c) = 0 \<Longrightarrow> ucb1 ag h current c = Finite 1000000"
    and "\<exists>y. ucb1 ag h current c = Finite y \<and> 0 \<le> y \<and> y \<le> 1000000"
proof -
  from assms(1,2) have c: "c < length h" "parent (h ! c) = Some current" "0 \<le> wi (h ! c)"
    "wi (h ! c) \<le> si (h ! c)" "si (h ! c) \<le> 2147483647" "self (h ! c) \<noteq> empty_piece"
    and p: "current < length h" "1 \<le> si (h ! current)" "si (h ! current) \<le> 2147483647"
    by (simp_all add: counted_children_def list_all_iff)
  have conv: "double_of_int (wi (h ! c)) = Finite (of_int (wi (h ! c)))"
    "double_of_int (si (h ! c)) = Finite (of_int (si (h ! c)))"
    "double_of_int (si (h ! current)) = Finite (of_int (si (h ! current)))"
    "double_of_int 1000000 = Finite 1000000"
    using c(3,4,5) p(2,3) double_of_int_exact[of 1000000]
    by (simp_all add: double_of_int_exact)
  show "best_child ag h c = Some (ucb1 ag h current c)"
    using c(1,2) p(1) conv side_to_act(1)[OF assms(3) c(6)]
    by (simp add: best_child_def ucb1_def parent_si_def)
  show z: "si (h ! c) = 0 \<Longrightarrow> ucb1 ag h current c = Finite 1000000"
    by (simp add: ucb1_def)
  show v: "si (h ! c) \<noteq> 0 \<Longrightarrow> \<exists>y. ucb1 ag h current c = Finite y \<and> 0 \<le> y \<and> y \<le> 46342"
  proof -
    assume nz: "si (h ! c) \<noteq> 0"
    then have s: "1 \<le> si (h ! c)" using c(3,4) by linarith
    from visited_score[OF c(3,4) s p(2,3) assms(4)] nz show ?thesis
      by (simp add: ucb1_def)
  qed
  show "\<exists>y. ucb1 ag h current c = Finite y \<and> 0 \<le> y \<and> y \<le> 1000000"
  proof (cases "si (h ! c) = 0")
    case True
    with z show ?thesis by simp
  next
    case False
    from v[OF this] obtain y where "ucb1 ag h current c = Finite y" "0 \<le> y" "y \<le> 46342" by blast
    then show ?thesis by (intro exI[of _ y]) simp
  qed
qed

lemma store_float:
  assumes "0 \<le> y" "y \<le> 46342"
  shows "\<exists>b. double_to_float (Finite y) = Finite b \<and> b < 1000000"
proof -
  have "of_int 0 \<le> y" "y \<le> of_int 46342" using assms by simp_all
  from float_between[OF this] obtain b where "round_float y = Finite b" "b \<le> 46342" by auto
  then show ?thesis by (intro exI[of _ b]) (simp add: double_to_float_def)
qed

lemma best_index_loop_keeps:
  assumes "counted_children h current cs'" "player_ok ag" "log_ok (clog ag)" "set cs \<subseteq> set cs'"
  shows "best_index_loop ag h cs i (Finite 1000000) bi = Some bi"
  using assms(4)
proof (induction cs arbitrary: i)
  case Nil
  then show ?case by simp
next
  case (Cons c cs)
  then have "c \<in> set cs'" by simp
  from best_child_ucb1(1,4)[OF assms(1) this assms(2,3)] obtain y where
    "best_child ag h c = Some (Finite y)" "y \<le> 1000000" by auto
  with Cons show ?case by simp
qed

lemma best_index_loop_first_unvisited:
  assumes "counted_children h current cs'" "player_ok ag" "log_ok (clog ag)"
  shows "set cs \<subseteq> set cs' \<Longrightarrow> b < 1000000 \<Longrightarrow> \<exists>c\<in>set cs. si (h ! c) = 0 \<Longrightarrow>
    best_index_loop ag h cs i (Finite b) bi
      = Some (i + length (takeWhile (\<lambda>c. si (h ! c) \<noteq> 0) cs))"
proof (induction cs arbitrary: i b bi)
  case Nil
  then show ?case by simp
next
  case (Cons c cs)
  then have c: "c \<in> set cs'" and sub: "set cs \<subseteq> set cs'" by simp_all
  note u = best_child_ucb1[OF assms(1) c assms(2,3)]
  show ?case
  proof (cases "si (h ! c) = 0")
    case True
    have "double_to_float (Finite 1000000) = Finite 1000000"
      using float_int[of 1000000] by (simp add: double_to_float_def)
    then show ?thesis
      using u(1) u(3)[OF True] True Cons.prems(2)
        best_index_loop_keeps[OF assms sub, of "i + 1" i]
      by simp
  next
    case False
    with Cons.prems(3) have ex: "\<exists>c\<in>set cs. si (h ! c) = 0" by simp
    from u(2)[OF False] obtain y where y: "ucb1 ag h current c = Finite y" "0 \<le> y" "y \<le> 46342"
      by blast
    show ?thesis
    proof (cases "b < y")
      case True
      from store_float[OF y(2,3)] obtain b' where
        b': "double_to_float (Finite y) = Finite b'" "b' < 1000000" by blast
      from Cons.IH[OF sub b'(2) ex, of "i + 1" i] show ?thesis
        using u(1) y(1) b'(1) True False by simp
    next
      case nb: False
      from Cons.IH[OF sub Cons.prems(2) ex, of "i + 1" bi] show ?thesis
        using u(1) y(1) nb False by simp
    qed
  qed
qed

lemma first_unvisited:
  assumes "\<exists>c\<in>set cs. si (h ! c) = 0"
  shows "length (takeWhile (\<lambda>c. si (h ! c) \<noteq> 0) cs) < length cs"
    and "si (h ! (cs ! length (takeWhile (\<lambda>c. si (h ! c) \<noteq> 0) cs))) = 0"
    and "\<forall>j<length (takeWhile (\<lambda>c. si (h ! c) \<noteq> 0) cs). si (h ! (cs ! j)) \<noteq> 0"
proof -
  let ?k = "length (takeWhile (\<lambda>c. si (h ! c) \<noteq> 0) cs)"
  show k: "?k < length cs"
    using assms by (induction cs) auto
  from nth_length_takeWhile[OF k] show "si (h ! (cs ! ?k)) = 0" by simp
  show "\<forall>j<?k. si (h ! (cs ! j)) \<noteq> 0"
  proof (intro allI impI)
    fix j assume j: "j < ?k"
    then have "takeWhile (\<lambda>c. si (h ! c) \<noteq> 0) cs ! j = cs ! j" by (rule takeWhile_nth)
    moreover have "takeWhile (\<lambda>c. si (h ! c) \<noteq> 0) cs ! j \<in> set (takeWhile (\<lambda>c. si (h ! c) \<noteq> 0) cs)"
      using j by simp
    then have "si (h ! (takeWhile (\<lambda>c. si (h ! c) \<noteq> 0) cs ! j)) \<noteq> 0"
      by (rule set_takeWhileD[THEN conjunct2])
    ultimately show "si (h ! (cs ! j)) \<noteq> 0" by simp
  qed
qed


text \<open>C2 (as amended). For the children of a node visited between 1 and \<open>INT_MAX\<close> times,
  as they are during a search (\<open>search_children_counted\<close> below), and a \<^verbatim>\<open>log\<close> that is
  finite and between 0 and its argument there: the score \<open>best_child\<close> of a visited child
  is \<open>wi/si + c * sqrt (log (parent si) / si)\<close> when the opponent is to act at the child,
  which is when the agent's side \<open>who\<close> has moved to it, and
  \<open>(1 - wi/si) + c * sqrt (log (parent si) / si)\<close> when the agent is to act at the child,
  each operation rounded to \<^verbatim>\<open>double\<close>; the score of an unvisited child is 1000000, which
  is more than the score of every visited child. If some child is unvisited, the loop of
  \<open>selection\<close> picks the first unvisited child in the order of the children, and the
  descent from a node that is not a leaf returns that child.\<close>

theorem ucb1_unvisited_first:
  assumes "counted_children h current (childrens (h ! current))"
    and "player_ok ag" and "log_ok (clog ag)"
  shows "(\<forall>c\<in>set (childrens (h ! current)).
            best_child ag h c = Some
              (if si (h ! c) = 0 then Finite 1000000
               else if to_act (h ! c) = opponent ag
               then double_add
                      (double_div (Finite (of_int (wi (h ! c)))) (Finite (of_int (si (h ! c)))))
                      (double_mul exploration_c
                         (double_sqrt (double_div (clog ag (Finite (of_int (si (h ! current)))))
                            (Finite (of_int (si (h ! c)))))))
               else double_add
                      (double_sub (Finite 1)
                         (double_div (Finite (of_int (wi (h ! c)))) (Finite (of_int (si (h ! c))))))
                      (double_mul exploration_c
                         (double_sqrt (double_div (clog ag (Finite (of_int (si (h ! current)))))
                            (Finite (of_int (si (h ! c))))))))
            \<and> (to_act (h ! c) = opponent ag \<or> to_act (h ! c) = who ag)
            \<and> (to_act (h ! c) = opponent ag) = (self (h ! c) = who ag)
            \<and> (si (h ! c) \<noteq> 0 \<longrightarrow>
                 (\<exists>v. best_child ag h c = Some v \<and> ieee_less v (Finite 1000000))))
    \<and> ((\<exists>c\<in>set (childrens (h ! current)). si (h ! c) = 0) \<longrightarrow>
         best_index_loop ag h (childrens (h ! current)) 0 (float_of_int 0) 0
           = Some (length (takeWhile (\<lambda>c. si (h ! c) \<noteq> 0) (childrens (h ! current))))
         \<and> length (takeWhile (\<lambda>c. si (h ! c) \<noteq> 0) (childrens (h ! current)))
             < length (childrens (h ! current))
         \<and> si (h ! (childrens (h ! current)
               ! length (takeWhile (\<lambda>c. si (h ! c) \<noteq> 0) (childrens (h ! current))))) = 0
         \<and> (\<forall>j<length (takeWhile (\<lambda>c. si (h ! c) \<noteq> 0) (childrens (h ! current))).
               si (h ! (childrens (h ! current) ! j)) \<noteq> 0)
         \<and> (\<not> isleaf (h ! current) \<longrightarrow>
              selection ag h current
                = Some (childrens (h ! current)
                    ! length (takeWhile (\<lambda>c. si (h ! c) \<noteq> 0) (childrens (h ! current))))))"
proof -
  let ?cs = "childrens (h ! current)"
  let ?k = "length (takeWhile (\<lambda>c. si (h ! c) \<noteq> 0) ?cs)"
  have scores: "\<forall>c\<in>set ?cs.
            best_child ag h c = Some
              (if si (h ! c) = 0 then Finite 1000000
               else if to_act (h ! c) = opponent ag
               then double_add
                      (double_div (Finite (of_int (wi (h ! c)))) (Finite (of_int (si (h ! c)))))
                      (double_mul exploration_c
                         (double_sqrt (double_div (clog ag (Finite (of_int (si (h ! current)))))
                            (Finite (of_int (si (h ! c)))))))
               else double_add
                      (double_sub (Finite 1)
                         (double_div (Finite (of_int (wi (h ! c)))) (Finite (of_int (si (h ! c))))))
                      (double_mul exploration_c
                         (double_sqrt (double_div (clog ag (Finite (of_int (si (h ! current)))))
                            (Finite (of_int (si (h ! c))))))))
            \<and> (to_act (h ! c) = opponent ag \<or> to_act (h ! c) = who ag)
            \<and> (to_act (h ! c) = opponent ag) = (self (h ! c) = who ag)
            \<and> (si (h ! c) \<noteq> 0 \<longrightarrow>
                 (\<exists>v. best_child ag h c = Some v \<and> ieee_less v (Finite 1000000)))"
  proof
    fix c assume c: "c \<in> set ?cs"
    note u = best_child_ucb1[OF assms(1) c assms(2,3)]
    have side: "self (h ! c) \<noteq> empty_piece"
      using assms(1) c by (simp add: counted_children_def list_all_iff)
    have a: "best_child ag h c = Some
              (if si (h ! c) = 0 then Finite 1000000
               else if to_act (h ! c) = opponent ag
               then double_add
                      (double_div (Finite (of_int (wi (h ! c)))) (Finite (of_int (si (h ! c)))))
                      (double_mul exploration_c
                         (double_sqrt (double_div (clog ag (Finite (of_int (si (h ! current)))))
                            (Finite (of_int (si (h ! c)))))))
               else double_add
                      (double_sub (Finite 1)
                         (double_div (Finite (of_int (wi (h ! c)))) (Finite (of_int (si (h ! c))))))
                      (double_mul exploration_c
                         (double_sqrt (double_div (clog ag (Finite (of_int (si (h ! current)))))
                            (Finite (of_int (si (h ! c))))))))"
      using u(1) by (simp add: ucb1_def)
    have b: "to_act (h ! c) = opponent ag \<or> to_act (h ! c) = who ag"
      by (rule side_to_act(2)[OF assms(2) side])
    have b': "(to_act (h ! c) = opponent ag) = (self (h ! c) = who ag)"
      using side_to_act(1)[OF assms(2) side] by auto
    have d: "si (h ! c) \<noteq> 0 \<longrightarrow> (\<exists>v. best_child ag h c = Some v \<and> ieee_less v (Finite 1000000))"
    proof
      assume "si (h ! c) \<noteq> 0"
      from u(2)[OF this] obtain y where "ucb1 ag h current c = Finite y" "y \<le> 46342" by blast
      with u(1) show "\<exists>v. best_child ag h c = Some v \<and> ieee_less v (Finite 1000000)" by simp
    qed
    from a b b' d show "best_child ag h c = Some
              (if si (h ! c) = 0 then Finite 1000000
               else if to_act (h ! c) = opponent ag
               then double_add
                      (double_div (Finite (of_int (wi (h ! c)))) (Finite (of_int (si (h ! c)))))
                      (double_mul exploration_c
                         (double_sqrt (double_div (clog ag (Finite (of_int (si (h ! current)))))
                            (Finite (of_int (si (h ! c)))))))
               else double_add
                      (double_sub (Finite 1)
                         (double_div (Finite (of_int (wi (h ! c)))) (Finite (of_int (si (h ! c))))))
                      (double_mul exploration_c
                         (double_sqrt (double_div (clog ag (Finite (of_int (si (h ! current)))))
                            (Finite (of_int (si (h ! c))))))))
            \<and> (to_act (h ! c) = opponent ag \<or> to_act (h ! c) = who ag)
            \<and> (to_act (h ! c) = opponent ag) = (self (h ! c) = who ag)
            \<and> (si (h ! c) \<noteq> 0 \<longrightarrow>
                 (\<exists>v. best_child ag h c = Some v \<and> ieee_less v (Finite 1000000)))"
      by (intro conjI)
  qed
  have pick: "(\<exists>c\<in>set ?cs. si (h ! c) = 0) \<longrightarrow>
         best_index_loop ag h ?cs 0 (float_of_int 0) 0 = Some ?k
         \<and> ?k < length ?cs \<and> si (h ! (?cs ! ?k)) = 0 \<and> (\<forall>j<?k. si (h ! (?cs ! j)) \<noteq> 0)
         \<and> (\<not> isleaf (h ! current) \<longrightarrow> selection ag h current = Some (?cs ! ?k))"
  proof
    assume ex: "\<exists>c\<in>set ?cs. si (h ! c) = 0"
    have z: "float_of_int 0 = Finite 0" using float_of_int_exact[of 0] by simp
    have "(0::real) < 1000000" by simp
    from best_index_loop_first_unvisited[OF assms subset_refl this ex, of 0 0]
    have loop: "best_index_loop ag h ?cs 0 (float_of_int 0) 0 = Some ?k" by (simp add: z)
    note f = first_unvisited[OF ex]
    have cur: "current < length h" using assms(1) by (simp add: counted_children_def)
    have "?cs ! ?k \<in> set ?cs" using f(1) by simp
    with assms(1) f(2) have ck: "?cs ! ?k < length h" "isleaf (h ! (?cs ! ?k))"
      by (simp_all add: counted_children_def list_all_iff)
    have leaf: "selection ag h (?cs ! ?k) = Some (?cs ! ?k)"
      using ck by (subst selection.simps) simp
    have "\<not> isleaf (h ! current) \<longrightarrow> selection ag h current = Some (?cs ! ?k)"
      using loop f(1) cur leaf by (subst selection.simps) simp
    with loop f show "best_index_loop ag h ?cs 0 (float_of_int 0) 0 = Some ?k
         \<and> ?k < length ?cs \<and> si (h ! (?cs ! ?k)) = 0 \<and> (\<forall>j<?k. si (h ! (?cs ! j)) \<noteq> 0)
         \<and> (\<not> isleaf (h ! current) \<longrightarrow> selection ag h current = Some (?cs ! ?k))"
      by (intro conjI)
  qed
  from scores pick show ?thesis by (intro conjI)
qed

text \<open>A store after five iterations: the root with three children, of which the first
  has been visited four times and the other two never.\<close>

definition sample_tree :: "piece_type list node list" where
  "sample_tree =
     [(new_node None [empty_piece, empty_piece, empty_piece] white)
        \<lparr>childrens := [1, 2, 3], isleaf := False, wi := 2, si := 5\<rparr>,
      (new_node (Some 0) [black, empty_piece, empty_piece] black)\<lparr>wi := 2, si := 4\<rparr>,
      new_node (Some 0) [empty_piece, black, empty_piece] black,
      new_node (Some 0) [empty_piece, empty_piece, black] black]"

lemma sample_tree_counted: "counted_children sample_tree 0 (childrens (sample_tree ! 0))"
  by (simp add: counted_children_def sample_tree_def new_node_def)

lemma sample_tree_fields:
  "childrens (sample_tree ! 0) = [1, 2, 3]" "si (sample_tree ! 0) = 5"
  "isleaf (sample_tree ! 0) = False"
  "si (sample_tree ! Suc 0) = 4" "wi (sample_tree ! Suc 0) = 2"
  "to_act (sample_tree ! Suc 0) = white"
  "si (sample_tree ! 2) = 0" "si (sample_tree ! 3) = 0"
  "who (fill_player 3) = black" "opponent (fill_player 3) = white"
  "clog (fill_player 3) = library_log"
  by (simp_all add: sample_tree_def new_node_def fill_player_def to_act_def my_opponent_def)

theorem ucb1_unvisited_first_witness:
  "counted_children sample_tree 0 (childrens (sample_tree ! 0))
   \<and> player_ok (fill_player 3) \<and> log_ok (clog (fill_player 3))
   \<and> best_child (fill_player 3) sample_tree 1
       = Some (double_add (double_div (Finite 2) (Finite 4))
                 (double_mul exploration_c
                    (double_sqrt (double_div (library_log (Finite 5)) (Finite 4)))))
   \<and> best_child (fill_player 3) sample_tree 2 = Some (Finite 1000000)
   \<and> best_index_loop (fill_player 3) sample_tree [1, 2, 3] 0 (float_of_int 0) 0 = Some 1
   \<and> selection (fill_player 3) sample_tree 0 = Some 2"
proof -
  have lk: "log_ok (clog (fill_player 3))"
    using library_log_ok by (simp add: fill_player_def)
  note t = ucb1_unvisited_first[OF sample_tree_counted fill_player_ok[of 3] lk]
  from t have a: "best_child (fill_player 3) sample_tree 1
       = Some (double_add (double_div (Finite 2) (Finite 4))
                 (double_mul exploration_c
                    (double_sqrt (double_div (library_log (Finite 5)) (Finite 4)))))"
    by (simp add: sample_tree_fields)
  from t have b: "best_child (fill_player 3) sample_tree 2 = Some (Finite 1000000)"
    by (simp add: sample_tree_fields)
  from t have c: "best_index_loop (fill_player 3) sample_tree [1, 2, 3] 0 (float_of_int 0) 0 = Some 1"
    by (simp add: sample_tree_fields del: best_index_loop.simps)
  from t have d: "selection (fill_player 3) sample_tree 0 = Some 2"
    by (simp add: sample_tree_fields del: best_index_loop.simps)
  from a b c d sample_tree_counted fill_player_ok[of 3] lk show ?thesis by simp
qed

text \<open>The claim as stated gives the two formulas the other way round. After the first
  iteration on an empty board of two cells the first child of the root has been reached
  by a move of the agent, so the opponent is to act there, and it has one visit and no
  win: the claim's score for a child where the opponent is to act is
  \<open>(1 - 0/1) + 0.8 * sqrt (ln 1 / 1) = 1\<close>, and \<open>best_child\<close> returns 0.\<close>

definition played_once :: "piece_type list node list" where
  "played_once =
     [\<lparr>parent = None, childrens = [1, 2], wi = 0, si = 1, isleaf = False,
        state = [empty_piece, empty_piece], self = white, move_placed = no_action,
        is_terminal = False\<rparr>,
      \<lparr>parent = Some 0, childrens = [], wi = 0, si = 1, isleaf = True,
        state = [black, empty_piece], self = black, move_placed = place 0 black,
        is_terminal = False\<rparr>,
      \<lparr>parent = Some 0, childrens = [], wi = 0, si = 0, isleaf = True,
        state = [empty_piece, black], self = black, move_placed = place 1 black,
        is_terminal = False\<rparr>]"

lemma zero_score:
  "double_add (double_div (double_of_int 0) (double_of_int 1))
     (double_mul exploration_c
        (double_sqrt (double_div (library_log (double_of_int 1)) (double_of_int 1))))
   = Finite 0"
proof -
  have i: "double_of_int 0 = Finite 0" "double_of_int 1 = Finite 1"
    using double_of_int_exact[of 0] double_of_int_exact[of 1] by simp_all
  have z: "round_double 0 = Finite 0" using double_int[of 0] by simp
  from exploration_c_bounds obtain c where c: "exploration_c = Finite c" by blast
  have l: "library_log (Finite 1) = Finite 0" by (simp add: library_log_def z)
  show ?thesis
    unfolding i c l
    by (simp add: double_add_def double_div_def double_mul_def double_sqrt_def z)
qed

theorem ucb1_unvisited_first_counterexample:
  "iteration (fill_player 2) plain_choice
       [new_node None [empty_piece, empty_piece] (opponent (fill_player 2))]
     = Some (played_once, 1)
   \<and> to_act (played_once ! 1) = opponent (fill_player 2)
   \<and> wi (played_once ! 1) = 0 \<and> si (played_once ! 1) = 1 \<and> si (played_once ! 0) = 1
   \<and> best_child (fill_player 2) played_once 1 = Some (Finite 0)
   \<and> (1 - 0 / 1) + 0.8 * sqrt (ln 1 / 1) = (1 :: real)"
proof -
  have o: "opponent (fill_player 2) = white" "who (fill_player 2) = black"
    "clog (fill_player 2) = library_log"
    by (simp_all add: fill_player_def)
  have a: "iteration (fill_player 2) plain_choice
       [new_node None [empty_piece, empty_piece] (opponent (fill_player 2))]
     = Some (played_once, 1)"
    using first_iteration by (simp add: o played_once_def)
  have b: "best_child (fill_player 2) played_once 1 = Some (Finite 0)"
    using zero_score by (simp add: best_child_def parent_si_def played_once_def o)
  from a b show ?thesis
    by (simp add: played_once_def to_act_def my_opponent_def o)
qed


subsection \<open>The children of an inner node during the search\<close>

text \<open>Every node that is not a leaf has been visited.\<close>

definition inner_visited :: "'b node list \<Rightarrow> bool" where
  "inner_visited h = (\<forall>a<length h. \<not> isleaf (h ! a) \<longrightarrow> 1 \<le> si (h ! a))"

lemma add_child_leaves:
  assumes "current < length h" "a < length (add_child h current temp op i)"
    "\<not> isleaf (add_child h current temp op i ! a)"
  shows "a < length h \<and> \<not> isleaf (h ! a)"
proof -
  note n = add_child_nth[OF assms(1), where temp = temp and op = op and i = i]
  have "a \<noteq> length h" using assms(3) n(4) by (auto simp: new_node_def)
  then have a: "a < length h" using assms(2) n(1) by simp
  then have "isleaf (add_child h current temp op i ! a) = isleaf (h ! a)"
    using n(2,3) by (cases "a = current") simp_all
  with a assms(3) show ?thesis by simp
qed

lemma expand_loop_leaves:
  "current < length h \<Longrightarrow> a < length (expand_loop ag op current ps h) \<Longrightarrow>
   \<not> isleaf (expand_loop ag op current ps h ! a) \<Longrightarrow> a < length h \<and> \<not> isleaf (h ! a)"
proof (induction ps arbitrary: h)
  case Nil
  then show ?case by simp
next
  case (Cons i ps)
  show ?case
  proof (cases "place_at ag i op (state (h ! current))")
    case None
    with Cons show ?thesis by (simp add: expand_loop_step del: expand_loop.simps)
  next
    case (Some temp)
    let ?h = "add_child h current temp op i"
    have e: "expand_loop ag op current (i # ps) h = expand_loop ag op current ps ?h"
      using Some Cons.prems(1) by (simp add: expand_loop_step del: expand_loop.simps)
    have l: "current < length ?h" using Cons.prems(1) add_child_nth(1)[OF Cons.prems(1)] by simp
    from Cons.IH[OF l] Cons.prems(2,3) e have "a < length ?h \<and> \<not> isleaf (?h ! a)" by simp
    then show ?thesis using add_child_leaves[OF Cons.prems(1)] by blast
  qed
qed

lemma expand_inner:
  assumes "tree_ok h" "leaf < length h" "shuffles f" "expand ag f h leaf = Some (h1, nl)"
    and "a < length h1" "\<not> isleaf (h1 ! a)"
  shows "(a < length h \<and> \<not> isleaf (h ! a)) \<or> parent (h1 ! nl) = Some a"
proof (cases "is_terminal (h ! leaf)")
  case True
  with assms(2,4) have "h1 = h" by (simp add: expand_def)
  with assms(5,6) show ?thesis by simp
next
  case False
  let ?op = "my_opponent (self (h ! leaf))"
  let ?ps = "[0..<(if ?op = who ag then space_size ag else myop_space_size ag)]"
  let ?h' = "expand_loop ag ?op leaf ?ps h"
  from expand_loop_tree[OF assms(1,2), of ag ?op ?ps]
  have t: "tree_ok ?h'" and g: "grown h ?h'" by simp_all
  have l: "leaf < length ?h'" using g assms(2) by (simp add: grown_def)
  show ?thesis
  proof (cases "childrens (?h' ! leaf) = []")
    case True
    then have h1: "h1 = ?h'[leaf := (?h' ! leaf)\<lparr>is_terminal := True\<rparr>]"
      using assms(2,4) False by (auto simp: expand_def Let_def)
    then have "a < length ?h'" "\<not> isleaf (?h' ! a)"
      using assms(5,6) l by (auto simp: nth_list_update split: if_splits)
    from expand_loop_leaves[OF assms(2) this] show ?thesis by simp
  next
    case ne: False
    then have "f (childrens (?h' ! leaf)) \<noteq> []" using shuffles_set(2)[OF assms(3)] by simp
    then obtain c cs where cs: "f (childrens (?h' ! leaf)) = c # cs"
      by (cases "f (childrens (?h' ! leaf))") simp_all
    have sc: "set (c # cs) = set (childrens (?h' ! leaf))"
      using shuffles_set(1)[OF assms(3), of "childrens (?h' ! leaf)"] cs by simp
    have e: "h1 = ?h'[leaf := (?h' ! leaf)\<lparr>childrens := c # cs, isleaf := False\<rparr>]" "nl = c"
      using assms(2,4) False ne cs by (auto simp: expand_def Let_def)
    have "c \<in> set (childrens (?h' ! leaf))" using sc by auto
    from child_of_tree[OF t l this] have c: "c < length ?h'" "parent (?h' ! c) = Some leaf" "leaf < c"
      by simp_all
    show ?thesis
    proof (cases "a = leaf")
      case True
      have "parent (h1 ! nl) = Some leaf" using e c l by (simp add: nth_list_update)
      with True show ?thesis by simp
    next
      case False
      then have "a < length ?h'" "\<not> isleaf (?h' ! a)"
        using assms(5,6) e(1) by (simp_all add: nth_list_update)
      from expand_loop_leaves[OF assms(2) this] show ?thesis by simp
    qed
  qed
qed

lemma iteration_parts:
  assumes "iteration ag ch h = Some (h2, nl)"
  shows "\<exists>leaf h1 score. selection ag h 0 = Some leaf
     \<and> expand ag (shuffle_children ch) h leaf = Some (h1, nl)
     \<and> rollout ag h1 nl (my_space ch) (opponent_space ch) = Some score
     \<and> backpropogation h1 (Some nl) score = Some h2"
proof (cases "selection ag h 0")
  case None
  with assms show ?thesis by (simp add: iteration_def)
next
  case (Some leaf)
  note sel = this
  show ?thesis
  proof (cases "expand ag (shuffle_children ch) h leaf")
    case None
    with assms sel show ?thesis by (simp add: iteration_def)
  next
    case (Some e)
    obtain h1 l where e: "e = (h1, l)" by (cases e)
    note ex = Some[unfolded e]
    show ?thesis
    proof (cases "rollout ag h1 l (my_space ch) (opponent_space ch)")
      case None
      with assms sel ex show ?thesis by (simp add: iteration_def)
    next
      case (Some score)
      note ro = this
      show ?thesis
      proof (cases "backpropogation h1 (Some l) score")
        case None
        with assms sel ex ro show ?thesis by (simp add: iteration_def)
      next
        case (Some b2)
        with assms sel ex ro have "b2 = h2" "l = nl" by (simp_all add: iteration_def)
        with sel ex ro Some show ?thesis by simp
      qed
    qed
  qed
qed

lemma iteration_inner:
  assumes "tree_ok h" "counts_ok h" "decreasing ag empties" "shuffles (shuffle_children ch)"
    and "inner_visited h" "iteration ag ch h = Some (h2, nl)"
  shows "inner_visited h2"
proof -
  from iteration_ok[OF assms(1-4)] obtain g2 gl where
    g: "iteration ag ch h = Some (g2, gl)" "tree_ok g2" "gl < length g2"
    "\<forall>a<length g2. si (g2 ! a) = (if a < length h then si (h ! a) else 0)
                          + (if a \<in> set (path_to_root g2 gl) then 1 else 0)"
    by blast
  from g(1) assms(6) have "g2 = h2" "gl = nl" by simp_all
  with g(2,3,4) have t2: "tree_ok h2" and nl: "nl < length h2"
    and cnt: "\<forall>a<length h2. si (h2 ! a) = (if a < length h then si (h ! a) else 0)
                          + (if a \<in> set (path_to_root h2 nl) then 1 else 0)"
    by simp_all
  have root: "0 < length h" using assms(1) by (simp add: tree_ok_def)
  from iteration_parts[OF assms(6)] obtain leaf h1 score where
    sel: "selection ag h 0 = Some leaf"
    and ex: "expand ag (shuffle_children ch) h leaf = Some (h1, nl)"
    and bp: "backpropogation h1 (Some nl) score = Some h2"
    by blast
  from selection_leaf[OF assms(1) root, of ag] sel have leaf: "leaf < length h" by simp
  from expand_ok[OF assms(1) leaf assms(4), of ag] ex have t1: "tree_ok h1"
    and nl1: "nl < length h1" by simp_all
  from backpropogation_path[OF nl1 tree_parents_older[OF t1 nl1], of score] obtain b2 where
    b2: "backpropogation h1 (Some nl) score = Some b2" "length b2 = length h1"
    "\<forall>b<length h1. b2 ! b
           = (if b \<in> set (path_to_root h1 nl) then visit score (h1 ! b) else h1 ! b)"
    by blast
  from b2(1) bp have "b2 = h2" by simp
  with b2(2,3) have len: "length h2 = length h1"
    and upd: "\<forall>b<length h1. h2 ! b
           = (if b \<in> set (path_to_root h1 nl) then visit score (h1 ! b) else h1 ! b)"
    by simp_all
  have fld: "\<forall>b<length h1. isleaf (h2 ! b) = isleaf (h1 ! b) \<and> parent (h2 ! b) = parent (h1 ! b)"
    using upd by (simp add: visit_def)
  show ?thesis
    unfolding inner_visited_def
  proof (intro allI impI)
    fix a assume a: "a < length h2" and na: "\<not> isleaf (h2 ! a)"
    then have a1: "a < length h1" "\<not> isleaf (h1 ! a)" using len fld by simp_all
    from expand_inner[OF assms(1) leaf assms(4) ex a1]
    show "1 \<le> si (h2 ! a)"
    proof
      assume o: "a < length h \<and> \<not> isleaf (h ! a)"
      with assms(5) have "1 \<le> si (h ! a)" by (simp add: inner_visited_def)
      with cnt a o show ?thesis by simp
    next
      assume "parent (h1 ! nl) = Some a"
      then have p: "parent (h2 ! nl) = Some a" using fld nl1 by simp
      with tree_parents_older[OF t2 nl] have "a < nl" by blast
      with p have "a \<in> set (path_to_root h2 nl)"
        using path_self[of a h2] by (subst path_to_root.simps) simp
      moreover have "0 \<le> (if a < length h then si (h ! a) else 0)"
        using assms(2) by (auto simp: counts_ok_def)
      ultimately show ?thesis using cnt a by simp
    qed
  qed
qed

lemma iterate_inner:
  assumes "decreasing ag empties" "\<forall>n. shuffles (shuffle_children (choices n))"
  shows "tree_ok h \<Longrightarrow> counts_ok h \<Longrightarrow> inner_visited h \<Longrightarrow>
    iterate ag choices c k h = Some (h', leaves) \<Longrightarrow> inner_visited h'"
proof (induction k arbitrary: c h leaves)
  case 0
  then show ?case by simp
next
  case (Suc k)
  from Suc.prems(4) obtain h1 l ls where
    it: "iteration ag (choices (c + 1)) h = Some (h1, l)"
    and rest: "iterate ag choices (c + 1) k h1 = Some (h', ls)"
    by (auto split: option.splits prod.splits)
  from assms(2) have sh: "shuffles (shuffle_children (choices (c + 1)))" by simp
  from iteration_ok[OF Suc.prems(1,2) assms(1) sh] obtain g2 gl where
    g: "iteration ag (choices (c + 1)) h = Some (g2, gl)" "tree_ok g2" "counts_ok g2"
    by blast
  from g(1) it have "g2 = h1" by simp
  with g(2,3) have t1: "tree_ok h1" and c1: "counts_ok h1" by simp_all
  have "inner_visited h1"
    by (rule iteration_inner[OF Suc.prems(1,2) assms(1) sh Suc.prems(3) it])
  from Suc.IH[OF t1 c1 this rest] show ?case .
qed

lemma passes_le: "passes h leaves a \<le> int (length leaves)"
  by (simp add: passes_def)

text \<open>Every node has been reached by a move of black or of white.\<close>

definition sides_ok :: "'b node list \<Rightarrow> bool" where
  "sides_ok h = (\<forall>a<length h. self (h ! a) \<noteq> empty_piece)"

lemma add_child_sides:
  assumes "current < length h" "sides_ok h" "op \<noteq> empty_piece"
  shows "sides_ok (add_child h current temp op i)"
  unfolding sides_ok_def
proof (intro allI impI)
  fix a assume a: "a < length (add_child h current temp op i)"
  note n = add_child_nth[OF assms(1), where temp = temp and op = op and i = i]
  show "self (add_child h current temp op i ! a) \<noteq> empty_piece"
  proof (cases "a < length h")
    case True
    then have "self (add_child h current temp op i ! a) = self (h ! a)"
      using n(2,3) by (cases "a = current") simp_all
    with True assms(2) show ?thesis by (simp add: sides_ok_def)
  next
    case False
    then have "a = length h" using a n(1) by simp
    then show ?thesis using n(4) assms(3) by (simp add: new_node_def)
  qed
qed

lemma expand_loop_sides:
  "current < length h \<Longrightarrow> sides_ok h \<Longrightarrow> op \<noteq> empty_piece \<Longrightarrow>
   sides_ok (expand_loop ag op current ps h)"
proof (induction ps arbitrary: h)
  case Nil
  then show ?case by simp
next
  case (Cons i ps)
  show ?case
  proof (cases "place_at ag i op (state (h ! current))")
    case None
    with Cons show ?thesis by (simp add: expand_loop_step del: expand_loop.simps)
  next
    case (Some temp)
    let ?h = "add_child h current temp op i"
    have l: "current < length ?h" using Cons.prems(1) add_child_nth(1)[OF Cons.prems(1)] by simp
    have s: "sides_ok ?h" by (rule add_child_sides[OF Cons.prems])
    from Cons.IH[OF l s Cons.prems(3)] show ?thesis
      using Some Cons.prems(1) by (simp add: expand_loop_step del: expand_loop.simps)
  qed
qed

lemma my_opponent_side: "my_opponent p \<noteq> empty_piece"
  by (simp add: my_opponent_def)

lemma sides_field:
  assumes "sides_ok h" "self n = self (h ! a)"
  shows "sides_ok (h[a := n])"
  unfolding sides_ok_def
proof (intro allI impI)
  fix b assume b: "b < length (h[a := n])"
  show "self (h[a := n] ! b) \<noteq> empty_piece"
  proof (cases "b = a")
    case True
    with b have "self (h[a := n] ! b) = self (h ! a)" using assms(2) by simp
    with True b assms(1) show ?thesis by (simp add: sides_ok_def)
  next
    case False
    with b assms(1) show ?thesis by (simp add: sides_ok_def)
  qed
qed

lemma sides_update:
  assumes "sides_ok h" "length h' = length h" "\<forall>a<length h. self (h' ! a) = self (h ! a)"
  shows "sides_ok h'"
  using assms by (simp add: sides_ok_def)

lemma expand_sides:
  assumes "leaf < length h" "sides_ok h" "expand ag f h leaf = Some (h1, nl)"
  shows "sides_ok h1"
proof (cases "is_terminal (h ! leaf)")
  case True
  with assms show ?thesis by (simp add: expand_def)
next
  case False
  let ?op = "my_opponent (self (h ! leaf))"
  let ?ps = "[0..<(if ?op = who ag then space_size ag else myop_space_size ag)]"
  let ?h' = "expand_loop ag ?op leaf ?ps h"
  have s: "sides_ok ?h'" by (rule expand_loop_sides[OF assms(1,2) my_opponent_side])
  show ?thesis
  proof (cases "childrens (?h' ! leaf) = []")
    case True
    then have "h1 = ?h'[leaf := (?h' ! leaf)\<lparr>is_terminal := True\<rparr>]"
      using assms(1,3) False by (auto simp: expand_def Let_def)
    moreover have "sides_ok (?h'[leaf := (?h' ! leaf)\<lparr>is_terminal := True\<rparr>])"
      by (rule sides_field[OF s]) simp
    ultimately show ?thesis by simp
  next
    case ne: False
    from assms(1,3) False ne obtain c cs where
      "h1 = ?h'[leaf := (?h' ! leaf)\<lparr>childrens := c # cs, isleaf := False\<rparr>]"
      by (auto simp: expand_def Let_def split: list.splits)
    moreover have "sides_ok (?h'[leaf := (?h' ! leaf)\<lparr>childrens := c # cs, isleaf := False\<rparr>])"
      by (rule sides_field[OF s]) simp
    ultimately show ?thesis by simp
  qed
qed

lemma iteration_sides:
  assumes "tree_ok h" "shuffles (shuffle_children ch)" "sides_ok h"
    and "iteration ag ch h = Some (h2, nl)"
  shows "sides_ok h2"
proof -
  have root: "0 < length h" using assms(1) by (simp add: tree_ok_def)
  from iteration_parts[OF assms(4)] obtain leaf h1 score where
    sel: "selection ag h 0 = Some leaf"
    and ex: "expand ag (shuffle_children ch) h leaf = Some (h1, nl)"
    and bp: "backpropogation h1 (Some nl) score = Some h2"
    by blast
  from selection_leaf[OF assms(1) root, of ag] sel have leaf: "leaf < length h" by simp
  from expand_ok[OF assms(1) leaf assms(2), of ag] ex have t1: "tree_ok h1"
    and nl1: "nl < length h1" by simp_all
  have s1: "sides_ok h1" by (rule expand_sides[OF leaf assms(3) ex])
  from backpropogation_path[OF nl1 tree_parents_older[OF t1 nl1], of score] bp
  have len: "length h2 = length h1"
    and upd: "\<forall>b<length h1. h2 ! b
           = (if b \<in> set (path_to_root h1 nl) then visit score (h1 ! b) else h1 ! b)"
    by simp_all
  have "\<forall>a<length h1. self (h2 ! a) = self (h1 ! a)"
    using upd by (simp add: visit_def)
  from sides_update[OF s1 len this] show ?thesis .
qed

lemma iterate_sides:
  assumes "decreasing ag empties" "\<forall>n. shuffles (shuffle_children (choices n))"
  shows "tree_ok h \<Longrightarrow> counts_ok h \<Longrightarrow> sides_ok h \<Longrightarrow>
    iterate ag choices c k h = Some (h', leaves) \<Longrightarrow> sides_ok h'"
proof (induction k arbitrary: c h leaves)
  case 0
  then show ?case by simp
next
  case (Suc k)
  from Suc.prems(4) obtain h1 l ls where
    it: "iteration ag (choices (c + 1)) h = Some (h1, l)"
    and rest: "iterate ag choices (c + 1) k h1 = Some (h', ls)"
    by (auto split: option.splits prod.splits)
  from assms(2) have sh: "shuffles (shuffle_children (choices (c + 1)))" by simp
  from iteration_ok[OF Suc.prems(1,2) assms(1) sh] obtain g2 gl where
    g: "iteration ag (choices (c + 1)) h = Some (g2, gl)" "tree_ok g2" "counts_ok g2"
    by blast
  from g(1) it have "g2 = h1" by simp
  with g(2,3) have t1: "tree_ok h1" and c1: "counts_ok h1" by simp_all
  have "sides_ok h1"
    by (rule iteration_sides[OF Suc.prems(1) sh Suc.prems(3) it])
  from Suc.IH[OF t1 c1 this rest] show ?case .
qed

text \<open>In a placement game, after any number of iterations that an \<^verbatim>\<open>int\<close> can count,
  the children of every inner node of the store are as \<open>counted_children\<close> asks.\<close>

lemma search_children_counted:
  assumes "decreasing ag empties" "\<forall>n. shuffles (shuffle_children (choices n))"
    and "k \<le> 2147483647" and "player_ok ag"
  shows "\<exists>h leaves. iterate ag choices 0 k [new_node None s (opponent ag)] = Some (h, leaves)
      \<and> (\<forall>a<length h. \<not> isleaf (h ! a) \<longrightarrow> counted_children h a (childrens (h ! a)))"
proof -
  from search_reaches[OF assms(1,2), of k s "opponent ag"] obtain h leaves where
    r: "iterate ag choices 0 k [new_node None s (opponent ag)] = Some (h, leaves)"
    "length leaves = k"
    "tree_ok h" "counts_ok h" "\<forall>a<length h. si (h ! a) = passes h leaves a"
    by blast
  have "inner_visited [new_node None s (opponent ag)]"
    by (simp add: inner_visited_def new_node_def)
  from iterate_inner[OF assms(1,2) root_tree this r(1)] have iv: "inner_visited h" .
  have "sides_ok [new_node None s (opponent ag)]"
    using assms(4) by (auto simp: sides_ok_def new_node_def player_ok_def)
  from iterate_sides[OF assms(1,2) root_tree this r(1)] have sd: "sides_ok h" .
  have bound: "\<forall>a<length h. si (h ! a) \<le> 2147483647"
  proof (intro allI impI)
    fix a assume "a < length h"
    then have "si (h ! a) \<le> int k" using r(5) passes_le[of h leaves a] r(2) by simp
    then show "si (h ! a) \<le> 2147483647" using assms(3) by simp
  qed
  have "\<forall>a<length h. \<not> isleaf (h ! a) \<longrightarrow> counted_children h a (childrens (h ! a))"
  proof (intro allI impI)
    fix a assume a: "a < length h" and na: "\<not> isleaf (h ! a)"
    have lo: "1 \<le> si (h ! a)" using iv a na by (simp add: inner_visited_def)
    have hi: "si (h ! a) \<le> 2147483647" using bound a by simp
    have "\<forall>c\<in>set (childrens (h ! a)). c < length h \<and> parent (h ! c) = Some a
                       \<and> 0 \<le> wi (h ! c) \<and> wi (h ! c) \<le> si (h ! c) \<and> si (h ! c) \<le> 2147483647
                       \<and> self (h ! c) \<noteq> empty_piece
                       \<and> (si (h ! c) = 0 \<longrightarrow> isleaf (h ! c))"
    proof
      fix c assume "c \<in> set (childrens (h ! a))"
      from child_of_tree(1,2)[OF r(3) a this] have c: "c < length h" "parent (h ! c) = Some a" .
      have "si (h ! c) = 0 \<longrightarrow> isleaf (h ! c)"
        using iv c(1) by (auto simp: inner_visited_def)
      with c r(4) bound sd show "c < length h \<and> parent (h ! c) = Some a
                       \<and> 0 \<le> wi (h ! c) \<and> wi (h ! c) \<le> si (h ! c) \<and> si (h ! c) \<le> 2147483647
                       \<and> self (h ! c) \<noteq> empty_piece
                       \<and> (si (h ! c) = 0 \<longrightarrow> isleaf (h ! c))"
        by (simp add: counts_ok_def sides_ok_def)
    qed
    with a lo hi show "counted_children h a (childrens (h ! a))"
      by (simp add: counted_children_def list_all_iff)
  qed
  with r(1) show ?thesis by blast
qed


subsection \<open>The move that the search returns\<close>

lemma best_move_loop_first_max:
  "\<forall>c\<in>set cs. c < length h \<Longrightarrow>
   \<exists>r. best_move_loop h cs bc bm = Some r
     \<and> ((\<forall>j<length cs. si (h ! (cs ! j)) \<le> bc) \<and> r = bm
        \<or> (\<exists>k<length cs. r = move_placed (h ! (cs ! k)) \<and> bc < si (h ! (cs ! k))
              \<and> (\<forall>j<length cs. si (h ! (cs ! j)) \<le> si (h ! (cs ! k)))
              \<and> (\<forall>j<k. si (h ! (cs ! j)) < si (h ! (cs ! k)))))"
proof (induction cs arbitrary: bc bm)
  case Nil
  then show ?case by simp
next
  case (Cons c cs)
  then have c: "c < length h" and rest: "\<forall>c\<in>set cs. c < length h" by simp_all
  show ?case
  proof (cases "si (h ! c) > bc")
    case True
    from Cons.IH[OF rest, of "si (h ! c)" "move_placed (h ! c)"] obtain r where
      r: "best_move_loop h cs (si (h ! c)) (move_placed (h ! c)) = Some r"
      and d: "(\<forall>j<length cs. si (h ! (cs ! j)) \<le> si (h ! c)) \<and> r = move_placed (h ! c)
        \<or> (\<exists>k<length cs. r = move_placed (h ! (cs ! k)) \<and> si (h ! c) < si (h ! (cs ! k))
              \<and> (\<forall>j<length cs. si (h ! (cs ! j)) \<le> si (h ! (cs ! k)))
              \<and> (\<forall>j<k. si (h ! (cs ! j)) < si (h ! (cs ! k))))"
      by blast
    have e: "best_move_loop h (c # cs) bc bm = Some r" using c True r by simp
    from d have "\<exists>k<length (c # cs). r = move_placed (h ! ((c # cs) ! k)) \<and> bc < si (h ! ((c # cs) ! k))
              \<and> (\<forall>j<length (c # cs). si (h ! ((c # cs) ! j)) \<le> si (h ! ((c # cs) ! k)))
              \<and> (\<forall>j<k. si (h ! ((c # cs) ! j)) < si (h ! ((c # cs) ! k)))"
    proof
      assume a: "(\<forall>j<length cs. si (h ! (cs ! j)) \<le> si (h ! c)) \<and> r = move_placed (h ! c)"
      have "\<forall>j<length (c # cs). si (h ! ((c # cs) ! j)) \<le> si (h ! c)"
      proof (intro allI impI)
        fix j assume "j < length (c # cs)"
        then show "si (h ! ((c # cs) ! j)) \<le> si (h ! c)" using a by (cases j) simp_all
      qed
      then show ?thesis using a True by (intro exI[of _ 0]) simp
    next
      assume "\<exists>k<length cs. r = move_placed (h ! (cs ! k)) \<and> si (h ! c) < si (h ! (cs ! k))
              \<and> (\<forall>j<length cs. si (h ! (cs ! j)) \<le> si (h ! (cs ! k)))
              \<and> (\<forall>j<k. si (h ! (cs ! j)) < si (h ! (cs ! k)))"
      then obtain k where k: "k < length cs" "r = move_placed (h ! (cs ! k))"
        "si (h ! c) < si (h ! (cs ! k))" "\<forall>j<length cs. si (h ! (cs ! j)) \<le> si (h ! (cs ! k))"
        "\<forall>j<k. si (h ! (cs ! j)) < si (h ! (cs ! k))" by blast
      have m: "\<forall>j<length (c # cs). si (h ! ((c # cs) ! j)) \<le> si (h ! (cs ! k))"
      proof (intro allI impI)
        fix j assume "j < length (c # cs)"
        then show "si (h ! ((c # cs) ! j)) \<le> si (h ! (cs ! k))" using k(3,4) by (cases j) simp_all
      qed
      have f: "\<forall>j<Suc k. si (h ! ((c # cs) ! j)) < si (h ! (cs ! k))"
      proof (intro allI impI)
        fix j assume "j < Suc k"
        then show "si (h ! ((c # cs) ! j)) < si (h ! (cs ! k))" using k(3,5) by (cases j) simp_all
      qed
      show ?thesis using k(1,2,3) True m f by (intro exI[of _ "Suc k"]) simp
    qed
    with e show ?thesis by blast
  next
    case False
    from Cons.IH[OF rest, of bc bm] obtain r where
      r: "best_move_loop h cs bc bm = Some r"
      and d: "(\<forall>j<length cs. si (h ! (cs ! j)) \<le> bc) \<and> r = bm
        \<or> (\<exists>k<length cs. r = move_placed (h ! (cs ! k)) \<and> bc < si (h ! (cs ! k))
              \<and> (\<forall>j<length cs. si (h ! (cs ! j)) \<le> si (h ! (cs ! k)))
              \<and> (\<forall>j<k. si (h ! (cs ! j)) < si (h ! (cs ! k))))"
      by blast
    have e: "best_move_loop h (c # cs) bc bm = Some r" using c False r by simp
    from d show ?thesis
    proof
      assume a: "(\<forall>j<length cs. si (h ! (cs ! j)) \<le> bc) \<and> r = bm"
      have "\<forall>j<length (c # cs). si (h ! ((c # cs) ! j)) \<le> bc"
      proof (intro allI impI)
        fix j assume "j < length (c # cs)"
        then show "si (h ! ((c # cs) ! j)) \<le> bc" using a False by (cases j) simp_all
      qed
      with e a show ?thesis by blast
    next
      assume "\<exists>k<length cs. r = move_placed (h ! (cs ! k)) \<and> bc < si (h ! (cs ! k))
              \<and> (\<forall>j<length cs. si (h ! (cs ! j)) \<le> si (h ! (cs ! k)))
              \<and> (\<forall>j<k. si (h ! (cs ! j)) < si (h ! (cs ! k)))"
      then obtain k where k: "k < length cs" "r = move_placed (h ! (cs ! k))"
        "bc < si (h ! (cs ! k))" "\<forall>j<length cs. si (h ! (cs ! j)) \<le> si (h ! (cs ! k))"
        "\<forall>j<k. si (h ! (cs ! j)) < si (h ! (cs ! k))" by blast
      have m: "\<forall>j<length (c # cs). si (h ! ((c # cs) ! j)) \<le> si (h ! (cs ! k))"
      proof (intro allI impI)
        fix j assume "j < length (c # cs)"
        then show "si (h ! ((c # cs) ! j)) \<le> si (h ! (cs ! k))" using k(3,4) False by (cases j) simp_all
      qed
      have f: "\<forall>j<Suc k. si (h ! ((c # cs) ! j)) < si (h ! (cs ! k))"
      proof (intro allI impI)
        fix j assume "j < Suc k"
        then show "si (h ! ((c # cs) ! j)) < si (h ! (cs ! k))" using k(3,5) False by (cases j) simp_all
      qed
      have "\<exists>k<length (c # cs). r = move_placed (h ! ((c # cs) ! k)) \<and> bc < si (h ! ((c # cs) ! k))
              \<and> (\<forall>j<length (c # cs). si (h ! ((c # cs) ! j)) \<le> si (h ! ((c # cs) ! k)))
              \<and> (\<forall>j<k. si (h ! ((c # cs) ! j)) < si (h ! ((c # cs) ! k)))"
        using k(1,2,3) m f by (intro exI[of _ "Suc k"]) simp
      with e show ?thesis by blast
    qed
  qed
qed

text \<open>The loop of the search ends at the first check of the clock, every 500 passes,
  that finds the time up.\<close>

definition stops :: "(nat \<Rightarrow> int) \<Rightarrow> int \<Rightarrow> nat \<Rightarrow> bool" where
  "stops clock cps n = (n mod 500 = 0 \<and> time_up clock cps n)"

lemma search_loop_stops:
  "c < N \<Longrightarrow> stops clock cps N \<Longrightarrow> \<forall>n. c < n \<and> n < N \<longrightarrow> \<not> stops clock cps n \<Longrightarrow>
   iterate ag choices c (N - c) h = Some (h', leaves) \<Longrightarrow>
   search_loop ag clock cps choices c h = Some h'"
proof (induction "N - c" arbitrary: c h leaves)
  case 0
  then show ?case by simp
next
  case (Suc k)
  then have nc: "N - c = Suc k" by simp
  from Suc.prems(4) nc obtain h1 l ls where
    it: "iteration ag (choices (c + 1)) h = Some (h1, l)"
    and rest: "iterate ag choices (c + 1) k h1 = Some (h', ls)"
    by (auto split: option.splits prod.splits)
  show ?case
  proof (cases "c + 1 = N")
    case True
    then have "k = 0" using nc by simp
    with rest have "h' = h1" by simp
    then show ?thesis
      using it True Suc.prems(2) by (subst search_loop.simps) (simp add: stops_def)
  next
    case False
    then have lt: "c + 1 < N" using Suc.prems(1) by simp
    have ns: "\<not> stops clock cps (c + 1)" using Suc.prems(1,3) lt by simp
    have k: "k = N - (c + 1)" using nc by simp
    have later: "\<forall>n. c + 1 < n \<and> n < N \<longrightarrow> \<not> stops clock cps n" using Suc.prems(3) by simp
    have "iterate ag choices (c + 1) (N - (c + 1)) h1 = Some (h', ls)" using rest k by simp
    from Suc.hyps(1)[OF k lt Suc.prems(2) later this]
    have "search_loop ag clock cps choices (c + 1) h1 = Some h'" .
    then show ?thesis
      using it ns by (subst search_loop.simps) (auto simp: stops_def)
  qed
qed

lemma first_stop:
  assumes "\<exists>N. 0 < N \<and> stops clock cps N"
  shows "\<exists>N. 0 < N \<and> stops clock cps N \<and> (\<forall>n. 0 < n \<and> n < N \<longrightarrow> \<not> stops clock cps n)"
proof -
  let ?P = "\<lambda>N. 0 < N \<and> stops clock cps N"
  from assms have "?P (LEAST N. ?P N)" by (rule LeastI_ex)
  moreover have "\<forall>n. 0 < n \<and> n < (LEAST N. ?P N) \<longrightarrow> \<not> stops clock cps n"
    using not_less_Least[of _ ?P] by blast
  ultimately show ?thesis by blast
qed

lemma above_budget:
  "ieee_less (round_double (999999 / 1000000)) (double_of_int q) = (1 \<le> q)"
proof -
  from budget obtain y where y: "round_double (999999 / 1000000) = Finite y" "0 \<le> y" "y < 1"
    by blast
  let ?r = "round_real 53 (- 1022) 1023 (of_int q)"
  have d: "double_of_int q =
      (if pow2 1024 \<le> ?r then PlusInf else if ?r \<le> - pow2 1024 then MinusInf else Finite ?r)"
    by (simp add: double_of_int_def round_double_def round_ieee_def Let_def)
  have p: "0 < pow2 1024" by (rule pow2_pos)
  show ?thesis
  proof (cases "1 \<le> q")
    case True
    then have "1 \<le> real_of_int q" by simp
    from round_real_one[OF _ _ _ this, of "- 1022" 1023 53] have "1 \<le> ?r" by simp
    then have "ieee_less (Finite y) (double_of_int q)" using d p y(3) by simp
    with True y(1) show ?thesis by simp
  next
    case False
    then have "real_of_int q \<le> 0" by simp
    then have "?r \<le> 0" by (rule round_real_nonpos)
    then have "\<not> ieee_less (Finite y) (double_of_int q)" using d p y(2) by simp
    with False y(1) show ?thesis by simp
  qed
qed

lemma time_up_seconds:
  assumes "0 < cps"
  shows "time_up clock cps n = (cps \<le> clock n - clock 0)"
proof (cases "0 \<le> clock n - clock 0")
  case True
  then have "c_div (clock n - clock 0) cps = (clock n - clock 0) div cps"
    using assms by (cases "clock n - clock 0 = 0") (simp_all add: c_div_def)
  moreover have "(0 < (clock n - clock 0) div cps) = (cps \<le> clock n - clock 0)"
    by (rule pos_imp_zdiv_pos_iff[OF assms])
  then have "(1 \<le> (clock n - clock 0) div cps) = (cps \<le> clock n - clock 0)"
    by linarith
  moreover have "ieee_less (round_double (999999 / 1000000))
         (double_of_int ((clock n - clock 0) div cps))
       = (1 \<le> (clock n - clock 0) div cps)"
    by (rule above_budget)
  ultimately show ?thesis by (simp add: time_up_def)
next
  case False
  then have neg: "clock n - clock 0 < 0" by simp
  have "0 \<le> \<bar>clock n - clock 0\<bar> div cps" using assms by (simp add: pos_imp_zdiv_nonneg_iff)
  then have "c_div (clock n - clock 0) cps \<le> 0"
    using neg assms by (simp add: c_div_def)
  then have "\<not> ieee_less (round_double (999999 / 1000000))
         (double_of_int (c_div (clock n - clock 0) cps))"
    by (simp add: above_budget)
  with neg assms show ?thesis by (simp add: time_up_def)
qed

text \<open>A store that is the root alone, a leaf without children, on the board \<open>s\<close>.\<close>

definition bare_root :: "'b mcts_player \<Rightarrow> 'b \<Rightarrow> 'b node list \<Rightarrow> bool" where
  "bare_root ag s h =
     (length h = 1 \<and> parent (h ! 0) = None \<and> childrens (h ! 0) = [] \<and> isleaf (h ! 0)
      \<and> state (h ! 0) = s \<and> self (h ! 0) = opponent ag)"

lemma expand_loop_none:
  "\<forall>i\<in>set ps. place_at ag i op (state (h ! current)) = None \<Longrightarrow>
   expand_loop ag op current ps h = h"
  by (induction ps) simp_all

lemma iteration_bare:
  assumes "player_ok ag" "\<forall>i<space_size ag. place_at ag i (who ag) s = None"
    and "bare_root ag s h" "iteration ag ch h = Some (h2, nl)"
  shows "bare_root ag s h2"
proof -
  from assms(3) obtain r where h: "h = [r]" and r: "parent r = None" "childrens r = []"
    "isleaf r" "state r = s" "self r = opponent ag"
    by (cases h) (auto simp: bare_root_def)
  have op: "my_opponent (self r) = who ag"
    using assms(1) r(5) by (auto simp: player_ok_def my_opponent_def)
  have sel: "selection ag h 0 = Some 0"
    using h r(3) by (subst selection.simps) simp
  have "\<forall>i\<in>set [0..<space_size ag]. place_at ag i (who ag) (state ([r] ! 0)) = None"
    using assms(2) r(4) by simp
  then have el: "expand_loop ag (who ag) 0 [0..<space_size ag] [r] = [r]"
    by (rule expand_loop_none)
  obtain r1 where ex: "expand ag (shuffle_children ch) h 0 = Some ([r1], 0)"
    and r1: "parent r1 = None" "childrens r1 = []" "isleaf r1" "state r1 = s"
    "self r1 = opponent ag"
  proof (cases "is_terminal r")
    case True
    then have "expand ag (shuffle_children ch) h 0 = Some ([r], 0)"
      using h by (simp add: expand_def)
    with r that show ?thesis by blast
  next
    case False
    then have "expand ag (shuffle_children ch) h 0 = Some ([r\<lparr>is_terminal := True\<rparr>], 0)"
      using h op el r(2) by (simp add: expand_def Let_def)
    with r that[of "r\<lparr>is_terminal := True\<rparr>"] show ?thesis by simp
  qed
  from assms(4) sel ex obtain score where
    bp: "backpropogation [r1] (Some 0) score = Some h2"
    by (auto simp: iteration_def split: option.splits)
  have "backpropogation [r1] (Some 0) score = Some [r1\<lparr>wi := wi r1 + score, si := si r1 + 1\<rparr>]"
    using r1(1) by (simp add: backpropogation.simps)
  with bp have "h2 = [r1\<lparr>wi := wi r1 + score, si := si r1 + 1\<rparr>]" by simp
  then show ?thesis using r1 by (simp add: bare_root_def)
qed

lemma iterate_bare:
  assumes "player_ok ag" "\<forall>i<space_size ag. place_at ag i (who ag) s = None"
  shows "bare_root ag s h \<Longrightarrow> iterate ag choices c k h = Some (h', leaves) \<Longrightarrow> bare_root ag s h'"
proof (induction k arbitrary: c h leaves)
  case 0
  then show ?case by simp
next
  case (Suc k)
  from Suc.prems(2) obtain h1 l ls where
    it: "iteration ag (choices (c + 1)) h = Some (h1, l)"
    and rest: "iterate ag choices (c + 1) k h1 = Some (h', ls)"
    by (auto split: option.splits prod.splits)
  from iteration_bare[OF assms Suc.prems(1) it] have "bare_root ag s h1" .
  from Suc.IH[OF this rest] show ?case .
qed

subsection \<open>The children of the root\<close>

text \<open>The moves that lead to the children of a node, in the order of the children; and
  the legal placements of the agent on a board, in the order of the positions.\<close>

definition child_moves :: "'b node list \<Rightarrow> nat \<Rightarrow> placement list" where
  "child_moves h a = map (\<lambda>c. move_placed (h ! c)) (childrens (h ! a))"

definition legal_moves :: "'b mcts_player \<Rightarrow> 'b \<Rightarrow> placement list" where
  "legal_moves ag s =
     map (\<lambda>i. place i (who ag)) (filter (\<lambda>i. place_at ag i (who ag) s \<noteq> None) [0..<space_size ag])"

lemma add_child_moves:
  assumes "tree_ok h" "current < length h"
  shows "child_moves (add_child h current temp op i) current = child_moves h current @ [place i op]"
proof -
  let ?h = "add_child h current temp op i"
  note n = add_child_nth[OF assms(2), where temp = temp and op = op and i = i]
  have old: "\<forall>c\<in>set (childrens (h ! current)). move_placed (?h ! c) = move_placed (h ! c)"
  proof
    fix c assume "c \<in> set (childrens (h ! current))"
    then have "c < length h" using assms by (simp add: tree_ok_def)
    then show "move_placed (?h ! c) = move_placed (h ! c)"
      using n(2,3) by (cases "c = current") simp_all
  qed
  have "move_placed (?h ! length h) = place i op" using n(4) by simp
  with old n(3) show ?thesis by (simp add: child_moves_def)
qed

lemma expand_loop_moves:
  "tree_ok h \<Longrightarrow> current < length h \<Longrightarrow>
   child_moves (expand_loop ag op current ps h) current
     = child_moves h current
       @ map (\<lambda>i. place i op) (filter (\<lambda>i. place_at ag i op (state (h ! current)) \<noteq> None) ps)"
proof (induction ps arbitrary: h)
  case Nil
  then show ?case by simp
next
  case (Cons i ps)
  show ?case
  proof (cases "place_at ag i op (state (h ! current))")
    case None
    with Cons show ?thesis by (simp add: expand_loop_step del: expand_loop.simps)
  next
    case (Some temp)
    let ?h = "add_child h current temp op i"
    note n = add_child_nth[OF Cons.prems(2), where temp = temp and op = op and i = i]
    have t: "tree_ok ?h" by (rule add_child_tree[OF Cons.prems])
    have l: "current < length ?h" using Cons.prems(2) n(1) by simp
    have st: "state (?h ! current) = state (h ! current)" using n(3) by simp
    from Cons.IH[OF t l] show ?thesis
      using Some Cons.prems(2) st add_child_moves[OF Cons.prems, of temp op i]
      by (simp add: expand_loop_step del: expand_loop.simps)
  qed
qed

lemma expand_loop_old:
  "current < length h \<Longrightarrow> a < length h \<Longrightarrow>
   move_placed (expand_loop ag op current ps h ! a) = move_placed (h ! a)
   \<and> isleaf (expand_loop ag op current ps h ! a) = isleaf (h ! a)
   \<and> (a \<noteq> current \<longrightarrow> childrens (expand_loop ag op current ps h ! a) = childrens (h ! a))"
proof (induction ps arbitrary: h)
  case Nil
  then show ?case by simp
next
  case (Cons i ps)
  show ?case
  proof (cases "place_at ag i op (state (h ! current))")
    case None
    with Cons show ?thesis by (simp add: expand_loop_step del: expand_loop.simps)
  next
    case (Some temp)
    let ?h = "add_child h current temp op i"
    note n = add_child_nth[OF Cons.prems(1), where temp = temp and op = op and i = i]
    have l: "current < length ?h" "a < length ?h" using Cons.prems n(1) by simp_all
    have "move_placed (?h ! a) = move_placed (h ! a) \<and> isleaf (?h ! a) = isleaf (h ! a)
        \<and> (a \<noteq> current \<longrightarrow> childrens (?h ! a) = childrens (h ! a))"
      using n(2,3) Cons.prems(2) by (cases "a = current") simp_all
    with Cons.IH[OF l] show ?thesis
      using Some Cons.prems(1) by (simp add: expand_loop_step del: expand_loop.simps)
  qed
qed

text \<open>What an iteration leaves of the nodes that are in the store before it: the move of
  each, and the children of each that is not a leaf.\<close>

lemma expand_old:
  assumes "tree_ok h" "leaf < length h" "shuffles f" "expand ag f h leaf = Some (h1, nl)"
    and "a < length h"
  shows "move_placed (h1 ! a) = move_placed (h ! a)"
    and "a \<noteq> leaf \<Longrightarrow> childrens (h1 ! a) = childrens (h ! a) \<and> isleaf (h1 ! a) = isleaf (h ! a)"
proof -
  have "move_placed (h1 ! a) = move_placed (h ! a)
    \<and> (a \<noteq> leaf \<longrightarrow> childrens (h1 ! a) = childrens (h ! a) \<and> isleaf (h1 ! a) = isleaf (h ! a))"
  proof (cases "is_terminal (h ! leaf)")
    case True
    with assms(2,4) have "h1 = h" by (simp add: expand_def)
    then show ?thesis by simp
  next
    case False
    let ?op = "my_opponent (self (h ! leaf))"
    let ?ps = "[0..<(if ?op = who ag then space_size ag else myop_space_size ag)]"
    let ?h' = "expand_loop ag ?op leaf ?ps h"
    note o = expand_loop_old[OF assms(2,5), of ag ?op ?ps]
    from expand_loop_tree[OF assms(1,2), of ag ?op ?ps] have g: "grown h ?h'" by simp
    have l: "leaf < length ?h'" "a < length ?h'" using g assms(2,5) by (simp_all add: grown_def)
    show ?thesis
    proof (cases "childrens (?h' ! leaf) = []")
      case True
      then have "h1 = ?h'[leaf := (?h' ! leaf)\<lparr>is_terminal := True\<rparr>]"
        using assms(2,4) False by (auto simp: expand_def Let_def)
      then have "move_placed (h1 ! a) = move_placed (?h' ! a)
          \<and> (a \<noteq> leaf \<longrightarrow> h1 ! a = ?h' ! a)"
        using l by (cases "a = leaf") simp_all
      with o show ?thesis by simp
    next
      case ne: False
      from assms(2,4) False ne obtain c cs where
        "h1 = ?h'[leaf := (?h' ! leaf)\<lparr>childrens := c # cs, isleaf := False\<rparr>]"
        by (auto simp: expand_def Let_def split: list.splits)
      then have "move_placed (h1 ! a) = move_placed (?h' ! a)
          \<and> (a \<noteq> leaf \<longrightarrow> h1 ! a = ?h' ! a)"
        using l by (cases "a = leaf") simp_all
      with o show ?thesis by simp
    qed
  qed
  then show "move_placed (h1 ! a) = move_placed (h ! a)"
    and "a \<noteq> leaf \<Longrightarrow> childrens (h1 ! a) = childrens (h ! a) \<and> isleaf (h1 ! a) = isleaf (h ! a)"
    by simp_all
qed

lemma iteration_old:
  assumes "tree_ok h" "shuffles (shuffle_children ch)" "iteration ag ch h = Some (h2, nl)"
  shows "\<exists>leaf. leaf < length h \<and> isleaf (h ! leaf) \<and> length h \<le> length h2
     \<and> (\<forall>a<length h. move_placed (h2 ! a) = move_placed (h ! a)
           \<and> (a \<noteq> leaf \<longrightarrow> childrens (h2 ! a) = childrens (h ! a)
                 \<and> isleaf (h2 ! a) = isleaf (h ! a)))"
proof -
  have root: "0 < length h" using assms(1) by (simp add: tree_ok_def)
  from iteration_parts[OF assms(3)] obtain leaf h1 score where
    sel: "selection ag h 0 = Some leaf"
    and ex: "expand ag (shuffle_children ch) h leaf = Some (h1, nl)"
    and bp: "backpropogation h1 (Some nl) score = Some h2"
    by blast
  from selection_leaf[OF assms(1) root, of ag] sel
  have leaf: "leaf < length h" "isleaf (h ! leaf)" by simp_all
  from expand_ok[OF assms(1) leaf(1) assms(2), of ag] ex have t1: "tree_ok h1"
    and g: "grown h h1" and nl1: "nl < length h1" by simp_all
  from backpropogation_path[OF nl1 tree_parents_older[OF t1 nl1], of score] bp
  have len: "length h2 = length h1"
    and upd: "\<forall>b<length h1. h2 ! b
           = (if b \<in> set (path_to_root h1 nl) then visit score (h1 ! b) else h1 ! b)"
    by simp_all
  have l1: "length h \<le> length h1" using g by (simp add: grown_def)
  have same: "\<forall>b<length h1. move_placed (h2 ! b) = move_placed (h1 ! b)
      \<and> childrens (h2 ! b) = childrens (h1 ! b) \<and> isleaf (h2 ! b) = isleaf (h1 ! b)"
    using upd by (simp add: visit_def)
  have "\<forall>a<length h. move_placed (h2 ! a) = move_placed (h ! a)
           \<and> (a \<noteq> leaf \<longrightarrow> childrens (h2 ! a) = childrens (h ! a)
                 \<and> isleaf (h2 ! a) = isleaf (h ! a))"
  proof (intro allI impI)
    fix a assume a: "a < length h"
    then have a1: "a < length h1" using l1 by simp
    note e = expand_old[OF assms(1) leaf(1) assms(2) ex a]
    show "move_placed (h2 ! a) = move_placed (h ! a)
           \<and> (a \<noteq> leaf \<longrightarrow> childrens (h2 ! a) = childrens (h ! a)
                 \<and> isleaf (h2 ! a) = isleaf (h ! a))"
      using same a1 e by simp
  qed
  with leaf l1 len show ?thesis by auto
qed

lemma iteration_root_kept:
  assumes "tree_ok h" "shuffles (shuffle_children ch)" "\<not> isleaf (h ! 0)"
    and "iteration ag ch h = Some (h2, nl)"
  shows "\<not> isleaf (h2 ! 0) \<and> child_moves h2 0 = child_moves h 0"
proof -
  have root: "0 < length h" using assms(1) by (simp add: tree_ok_def)
  from iteration_old[OF assms(1,2,4)] obtain leaf where
    leaf: "leaf < length h" "isleaf (h ! leaf)"
    and old: "\<forall>a<length h. move_placed (h2 ! a) = move_placed (h ! a)
           \<and> (a \<noteq> leaf \<longrightarrow> childrens (h2 ! a) = childrens (h ! a)
                 \<and> isleaf (h2 ! a) = isleaf (h ! a))"
    by blast
  have ne: "0 \<noteq> leaf"
  proof
    assume "0 = leaf"
    with leaf(2) assms(3) show False by simp
  qed
  from old root have "0 \<noteq> leaf \<longrightarrow> childrens (h2 ! 0) = childrens (h ! 0)
      \<and> isleaf (h2 ! 0) = isleaf (h ! 0)"
    by blast
  with ne have r: "childrens (h2 ! 0) = childrens (h ! 0)" "isleaf (h2 ! 0) = isleaf (h ! 0)"
    by blast+
  have "\<forall>c\<in>set (childrens (h ! 0)). move_placed (h2 ! c) = move_placed (h ! c)"
    using child_of_tree(1)[OF assms(1) root] old by blast
  then have "child_moves h2 0 = child_moves h 0"
    using r(1) by (simp add: child_moves_def)
  with r(2) assms(3) show ?thesis by simp
qed

lemma iteration_root_first:
  assumes "player_ok ag" "shuffles (shuffle_children ch)" "legal_moves ag s \<noteq> []"
    and "iteration ag ch [new_node None s (opponent ag)] = Some (h2, nl)"
  shows "\<not> isleaf (h2 ! 0) \<and> mset (child_moves h2 0) = mset (legal_moves ag s)"
proof -
  let ?r = "new_node None s (opponent ag)"
  let ?f = "shuffle_children ch"
  have t0: "tree_ok [?r]" by (rule root_tree(1))
  have op: "my_opponent (self ?r) = who ag"
    using assms(1) by (auto simp: player_ok_def my_opponent_def new_node_def)
  from iteration_parts[OF assms(4)] obtain leaf h1 score where
    sel: "selection ag [?r] 0 = Some leaf"
    and ex: "expand ag ?f [?r] leaf = Some (h1, nl)"
    and bp: "backpropogation h1 (Some nl) score = Some h2"
    by blast
  have "selection ag [?r] 0 = Some 0"
    by (subst selection.simps) (simp add: new_node_def)
  with sel have leaf: "leaf = 0" by simp
  let ?h' = "expand_loop ag (who ag) 0 [0..<space_size ag] [?r]"
  from expand_loop_tree[of "[?r]" 0 ag "who ag" "[0..<space_size ag]"] t0
  have t': "tree_ok ?h'" and g': "grown [?r] ?h'" by simp_all
  have l': "0 < length ?h'" using t' by (simp add: tree_ok_def)
  have "child_moves [?r] 0 = []" by (simp add: child_moves_def new_node_def)
  moreover have "state ([?r] ! 0) = s" by (simp add: new_node_def)
  ultimately have cm: "child_moves ?h' 0 = legal_moves ag s"
    using expand_loop_moves[of "[?r]" 0 ag "who ag" "[0..<space_size ag]"] t0
    by (simp add: legal_moves_def)
  then have ne: "childrens (?h' ! 0) \<noteq> []" using assms(3) by (auto simp: child_moves_def)
  then have "?f (childrens (?h' ! 0)) \<noteq> []" using shuffles_set(2)[OF assms(2)] by simp
  then obtain c cs where cs: "?f (childrens (?h' ! 0)) = c # cs"
    by (cases "?f (childrens (?h' ! 0))") simp_all
  have nt: "\<not> is_terminal ([?r] ! 0)" by (simp add: new_node_def)
  have h1: "h1 = ?h'[0 := (?h' ! 0)\<lparr>childrens := c # cs, isleaf := False\<rparr>]"
    using ex leaf nt op ne cs by (auto simp: expand_def Let_def)
  have kids: "\<forall>x\<in>set (c # cs). 0 < x \<and> x < length ?h'"
  proof
    fix x assume "x \<in> set (c # cs)"
    moreover have "set (c # cs) = set (childrens (?h' ! 0))"
      using shuffles_set(1)[OF assms(2), of "childrens (?h' ! 0)"] cs by simp
    ultimately have "x \<in> set (childrens (?h' ! 0))" by blast
    from child_of_tree(1,3)[OF t' l' this] show "0 < x \<and> x < length ?h'" by simp
  qed
  then have "\<forall>x\<in>set (c # cs). move_placed (h1 ! x) = move_placed (?h' ! x)"
    using h1 by simp
  then have "child_moves h1 0 = map (\<lambda>x. move_placed (?h' ! x)) (?f (childrens (?h' ! 0)))"
    using h1 l' cs by (simp add: child_moves_def)
  then have "mset (child_moves h1 0) = image_mset (\<lambda>x. move_placed (?h' ! x)) (mset (?f (childrens (?h' ! 0))))"
    by simp
  also have "mset (?f (childrens (?h' ! 0))) = mset (childrens (?h' ! 0))"
    using assms(2) by (simp add: shuffles_def)
  also have "image_mset (\<lambda>x. move_placed (?h' ! x)) (mset (childrens (?h' ! 0)))
      = mset (child_moves ?h' 0)"
    by (simp add: child_moves_def)
  finally have m1: "mset (child_moves h1 0) = mset (legal_moves ag s)"
    using cm by simp
  have leaf1: "\<not> isleaf (h1 ! 0)" using h1 l' by simp
  from expand_ok[OF t0 _ assms(2), of 0 ag] ex leaf have t1: "tree_ok h1"
    and nl1: "nl < length h1" by simp_all
  from backpropogation_path[OF nl1 tree_parents_older[OF t1 nl1], of score] bp
  have len: "length h2 = length h1"
    and upd: "\<forall>b<length h1. h2 ! b
           = (if b \<in> set (path_to_root h1 nl) then visit score (h1 ! b) else h1 ! b)"
    by simp_all
  have same: "\<forall>b<length h1. move_placed (h2 ! b) = move_placed (h1 ! b)
      \<and> childrens (h2 ! b) = childrens (h1 ! b) \<and> isleaf (h2 ! b) = isleaf (h1 ! b)"
    using upd by (simp add: visit_def)
  have r1: "0 < length h1" using t1 by (simp add: tree_ok_def)
  have "\<forall>x\<in>set (childrens (h1 ! 0)). move_placed (h2 ! x) = move_placed (h1 ! x)"
    using child_of_tree(1)[OF t1 r1] same by blast
  then have "child_moves h2 0 = child_moves h1 0"
    using same r1 by (simp add: child_moves_def)
  with m1 leaf1 same r1 show ?thesis by simp
qed

lemma iterate_root_kept:
  assumes "decreasing ag empties" "\<forall>n. shuffles (shuffle_children (choices n))"
  shows "tree_ok h \<Longrightarrow> counts_ok h \<Longrightarrow> \<not> isleaf (h ! 0) \<Longrightarrow>
    iterate ag choices c k h = Some (h', leaves) \<Longrightarrow>
    \<not> isleaf (h' ! 0) \<and> child_moves h' 0 = child_moves h 0"
proof (induction k arbitrary: c h leaves)
  case 0
  then show ?case by simp
next
  case (Suc k)
  from Suc.prems(4) obtain h1 l ls where
    it: "iteration ag (choices (c + 1)) h = Some (h1, l)"
    and rest: "iterate ag choices (c + 1) k h1 = Some (h', ls)"
    by (auto split: option.splits prod.splits)
  from assms(2) have sh: "shuffles (shuffle_children (choices (c + 1)))" by simp
  from iteration_ok[OF Suc.prems(1,2) assms(1) sh] obtain g2 gl where
    g: "iteration ag (choices (c + 1)) h = Some (g2, gl)" "tree_ok g2" "counts_ok g2"
    by blast
  from g(1) it have "g2 = h1" by simp
  with g(2,3) have t1: "tree_ok h1" and c1: "counts_ok h1" by simp_all
  from iteration_root_kept[OF Suc.prems(1) sh Suc.prems(3) it]
  have k1: "\<not> isleaf (h1 ! 0)" "child_moves h1 0 = child_moves h 0" by simp_all
  from Suc.IH[OF t1 c1 k1(1) rest] k1(2) show ?case by simp
qed

lemma search_root:
  assumes "decreasing ag empties" "\<forall>n. shuffles (shuffle_children (choices n))"
    and "player_ok ag" "legal_moves ag s \<noteq> []" "0 < N"
    and "iterate ag choices 0 N [new_node None s (opponent ag)] = Some (h, leaves)"
  shows "\<not> isleaf (h ! 0) \<and> mset (child_moves h 0) = mset (legal_moves ag s)"
proof -
  let ?root = "[new_node None s (opponent ag)]"
  from assms(5) obtain k where N: "N = Suc k" by (cases N) simp_all
  from assms(6) N obtain h1 l ls where
    it: "iteration ag (choices (0 + 1)) ?root = Some (h1, l)"
    and rest: "iterate ag choices (0 + 1) k h1 = Some (h, ls)"
    by (auto split: option.splits prod.splits)
  from assms(2) have sh: "shuffles (shuffle_children (choices (0 + 1)))" by blast
  from iteration_root_first[OF assms(3) sh assms(4) it]
  have f: "\<not> isleaf (h1 ! 0)" "mset (child_moves h1 0) = mset (legal_moves ag s)" by simp_all
  from iteration_ok[OF root_tree assms(1) sh, of s "opponent ag"] it
  have t1: "tree_ok h1" and c1: "counts_ok h1" by auto
  from iterate_root_kept[OF assms(1,2) t1 c1 f(1) rest] f(2) show ?thesis by simp
qed


text \<open>C5. In a placement game, with any shuffles and a clock that finds the time up at
  some check, the search runs until the first check, made every 500 passes, at which a
  whole second of clock ticks has elapsed, and \<open>take_action\<close> returns. The root has then
  been visited once for each pass, its children are the legal placements of the agent on
  the board, one child for each, and the \<open>si\<close> of a child is the number of passes that
  went through it. What is returned is the default action when the root has no children,
  and otherwise the move of the first child of the root with the greatest \<open>si\<close>: where
  the agent has a legal placement, a legal placement of the agent. When the agent has no
  legal placement on the board, the store stays the root alone and the default action is
  returned.\<close>

theorem mcts_take_action_result:
  assumes "player_ok ag" "decreasing ag empties"
    and "\<forall>n. shuffles (shuffle_children (choices n))"
    and "\<exists>N. 0 < N \<and> N mod 500 = 0 \<and> time_up clock cps N"
  shows "\<exists>N h leaves a. 0 < N \<and> N mod 500 = 0 \<and> time_up clock cps N
     \<and> (\<forall>n. 0 < n \<and> n < N \<longrightarrow> \<not> (n mod 500 = 0 \<and> time_up clock cps n))
     \<and> (0 < cps \<longrightarrow> cps \<le> clock N - clock 0)
     \<and> iterate ag choices 0 N [new_node None s (opponent ag)] = Some (h, leaves)
     \<and> search_loop ag clock cps choices 0 [new_node None s (opponent ag)] = Some h
     \<and> si (h ! 0) = int N
     \<and> mset (map (\<lambda>c. move_placed (h ! c)) (childrens (h ! 0)))
         = mset (map (\<lambda>i. place i (who ag))
                  (filter (\<lambda>i. place_at ag i (who ag) s \<noteq> None) [0..<space_size ag]))
     \<and> (\<forall>c\<in>set (childrens (h ! 0)).
           si (h ! c) = int (length (filter (\<lambda>l. c \<in> set (path_to_root h l)) leaves)))
     \<and> mcts_take_action ag clock cps choices s = Some a
     \<and> (if childrens (h ! 0) = [] then a = no_action
         else \<exists>k<length (childrens (h ! 0)). a = move_placed (h ! (childrens (h ! 0) ! k))
            \<and> (\<forall>j<length (childrens (h ! 0)).
                  si (h ! (childrens (h ! 0) ! j)) \<le> si (h ! (childrens (h ! 0) ! k)))
            \<and> (\<forall>j<k. si (h ! (childrens (h ! 0) ! j)) < si (h ! (childrens (h ! 0) ! k))))
     \<and> ((\<exists>i<space_size ag. place_at ag i (who ag) s \<noteq> None) \<longrightarrow>
           childrens (h ! 0) \<noteq> []
           \<and> (\<exists>i<space_size ag. a = place i (who ag) \<and> place_at ag i (who ag) s \<noteq> None))
     \<and> ((\<forall>i<space_size ag. place_at ag i (who ag) s = None) \<longrightarrow>
           length h = 1 \<and> childrens (h ! 0) = [] \<and> a = no_action)"
proof -
  let ?root = "[new_node None s (opponent ag)]"
  from assms(4) have "\<exists>N. 0 < N \<and> stops clock cps N" by (simp add: stops_def)
  from first_stop[OF this] obtain N where
    N: "0 < N" "stops clock cps N" "\<forall>n. 0 < n \<and> n < N \<longrightarrow> \<not> stops clock cps n"
    by blast
  from search_reaches[OF assms(2,3), of N s "opponent ag"] obtain h leaves where
    r: "iterate ag choices 0 N ?root = Some (h, leaves)" "tree_ok h" "counts_ok h"
    and counts: "\<forall>a<length h. si (h ! a) = passes h leaves a"
    and visits: "si (h ! 0) = int N"
    by blast
  have "iterate ag choices 0 (N - 0) ?root = Some (h, leaves)" using r(1) by simp
  from search_loop_stops[OF N(1,2,3) this]
  have sl: "search_loop ag clock cps choices 0 ?root = Some h" .
  let ?cs = "childrens (h ! 0)"
  have h0: "0 < length h" using r(2) by (simp add: tree_ok_def)
  have inr: "\<forall>c\<in>set ?cs. c < length h" using child_of_tree(1)[OF r(2) h0] by blast
  have kids: "\<forall>c\<in>set ?cs.
           si (h ! c) = int (length (filter (\<lambda>l. c \<in> set (path_to_root h l)) leaves))"
    using inr counts by (simp add: passes_def)
  from best_move_loop_first_max[OF inr, of "-1" no_action] obtain a where
    a: "best_move_loop h ?cs (-1) no_action = Some a"
    and d: "(\<forall>j<length ?cs. si (h ! (?cs ! j)) \<le> -1) \<and> a = no_action
        \<or> (\<exists>k<length ?cs. a = move_placed (h ! (?cs ! k)) \<and> -1 < si (h ! (?cs ! k))
              \<and> (\<forall>j<length ?cs. si (h ! (?cs ! j)) \<le> si (h ! (?cs ! k)))
              \<and> (\<forall>j<k. si (h ! (?cs ! j)) < si (h ! (?cs ! k))))"
    by blast
  have ta: "mcts_take_action ag clock cps choices s = Some a"
    using sl a by (simp add: mcts_take_action_def)
  have pick: "if ?cs = [] then a = no_action
         else \<exists>k<length ?cs. a = move_placed (h ! (?cs ! k))
            \<and> (\<forall>j<length ?cs. si (h ! (?cs ! j)) \<le> si (h ! (?cs ! k)))
            \<and> (\<forall>j<k. si (h ! (?cs ! j)) < si (h ! (?cs ! k)))"
  proof (cases "?cs = []")
    case True
    with a show ?thesis by simp
  next
    case False
    then have "?cs ! 0 \<in> set ?cs" by simp
    with inr have "?cs ! 0 < length h" by blast
    with r(3) have "0 \<le> wi (h ! (?cs ! 0)) \<and> wi (h ! (?cs ! 0)) \<le> si (h ! (?cs ! 0))"
      unfolding counts_ok_def by blast
    then have "0 \<le> si (h ! (?cs ! 0))" by linarith
    with False have "\<not> (\<forall>j<length ?cs. si (h ! (?cs ! j)) \<le> -1)" by force
    with d have "\<exists>k<length ?cs. a = move_placed (h ! (?cs ! k))
            \<and> (\<forall>j<length ?cs. si (h ! (?cs ! j)) \<le> si (h ! (?cs ! k)))
            \<and> (\<forall>j<k. si (h ! (?cs ! j)) < si (h ! (?cs ! k)))"
      by blast
    with False show ?thesis by simp
  qed
  have none: "(\<forall>i<space_size ag. place_at ag i (who ag) s = None) \<longrightarrow>
           length h = 1 \<and> ?cs = [] \<and> a = no_action"
  proof
    assume nl: "\<forall>i<space_size ag. place_at ag i (who ag) s = None"
    have "bare_root ag s ?root" by (simp add: bare_root_def new_node_def)
    from iterate_bare[OF assms(1) nl this r(1)] have b: "bare_root ag s h" .
    then have "length h = 1" "?cs = []" by (simp_all add: bare_root_def)
    with pick show "length h = 1 \<and> ?cs = [] \<and> a = no_action" by simp
  qed
  have moves: "mset (child_moves h 0) = mset (legal_moves ag s)"
  proof (cases "legal_moves ag s = []")
    case True
    then have "\<forall>i<space_size ag. place_at ag i (who ag) s = None"
      by (auto simp: legal_moves_def filter_empty_conv)
    with none have "?cs = []" by simp
    with True show ?thesis by (simp add: child_moves_def)
  next
    case False
    from search_root[OF assms(2,3,1) False N(1) r(1)] show ?thesis by simp
  qed
  have some: "(\<exists>i<space_size ag. place_at ag i (who ag) s \<noteq> None) \<longrightarrow>
           ?cs \<noteq> [] \<and> (\<exists>i<space_size ag. a = place i (who ag) \<and> place_at ag i (who ag) s \<noteq> None)"
  proof
    assume "\<exists>i<space_size ag. place_at ag i (who ag) s \<noteq> None"
    then have ne: "legal_moves ag s \<noteq> []"
      by (auto simp: legal_moves_def filter_empty_conv)
    with moves have "child_moves h 0 \<noteq> []" by auto
    then have cs: "?cs \<noteq> []" by (simp add: child_moves_def)
    with pick obtain k where k: "k < length ?cs" "a = move_placed (h ! (?cs ! k))" by auto
    then have "a \<in> set (child_moves h 0)" by (auto simp: child_moves_def)
    moreover have "set (child_moves h 0) = set (legal_moves ag s)"
      using moves by (rule mset_eq_setD)
    ultimately have "a \<in> set (legal_moves ag s)" by simp
    then have "\<exists>i<space_size ag. a = place i (who ag) \<and> place_at ag i (who ag) s \<noteq> None"
      by (auto simp: legal_moves_def)
    with cs show "?cs \<noteq> []
        \<and> (\<exists>i<space_size ag. a = place i (who ag) \<and> place_at ag i (who ag) s \<noteq> None)"
      by simp
  qed
  have moves': "mset (map (\<lambda>c. move_placed (h ! c)) ?cs)
         = mset (map (\<lambda>i. place i (who ag))
                  (filter (\<lambda>i. place_at ag i (who ag) s \<noteq> None) [0..<space_size ag]))"
    using moves by (simp only: child_moves_def legal_moves_def)
  have sec: "0 < cps \<longrightarrow> cps \<le> clock N - clock 0"
    using N(2) time_up_seconds[of cps clock N] by (simp add: stops_def)
  have st: "N mod 500 = 0" "time_up clock cps N" using N(2) by (simp_all add: stops_def)
  have ns: "\<forall>n. 0 < n \<and> n < N \<longrightarrow> \<not> (n mod 500 = 0 \<and> time_up clock cps n)"
    using N(3) by (simp add: stops_def)
  note it = r(1) and pos = N(1)
  have "0 < N \<and> N mod 500 = 0 \<and> time_up clock cps N
     \<and> (\<forall>n. 0 < n \<and> n < N \<longrightarrow> \<not> (n mod 500 = 0 \<and> time_up clock cps n))
     \<and> (0 < cps \<longrightarrow> cps \<le> clock N - clock 0)
     \<and> iterate ag choices 0 N [new_node None s (opponent ag)] = Some (h, leaves)
     \<and> search_loop ag clock cps choices 0 [new_node None s (opponent ag)] = Some h
     \<and> si (h ! 0) = int N
     \<and> mset (map (\<lambda>c. move_placed (h ! c)) (childrens (h ! 0)))
         = mset (map (\<lambda>i. place i (who ag))
                  (filter (\<lambda>i. place_at ag i (who ag) s \<noteq> None) [0..<space_size ag]))
     \<and> (\<forall>c\<in>set (childrens (h ! 0)).
           si (h ! c) = int (length (filter (\<lambda>l. c \<in> set (path_to_root h l)) leaves)))
     \<and> mcts_take_action ag clock cps choices s = Some a
     \<and> (if childrens (h ! 0) = [] then a = no_action
         else \<exists>k<length (childrens (h ! 0)). a = move_placed (h ! (childrens (h ! 0) ! k))
            \<and> (\<forall>j<length (childrens (h ! 0)).
                  si (h ! (childrens (h ! 0) ! j)) \<le> si (h ! (childrens (h ! 0) ! k)))
            \<and> (\<forall>j<k. si (h ! (childrens (h ! 0) ! j)) < si (h ! (childrens (h ! 0) ! k))))
     \<and> ((\<exists>i<space_size ag. place_at ag i (who ag) s \<noteq> None) \<longrightarrow>
           childrens (h ! 0) \<noteq> []
           \<and> (\<exists>i<space_size ag. a = place i (who ag) \<and> place_at ag i (who ag) s \<noteq> None))
     \<and> ((\<forall>i<space_size ag. place_at ag i (who ag) s = None) \<longrightarrow>
           length h = 1 \<and> childrens (h ! 0) = [] \<and> a = no_action)"
    by (intro conjI) (fact pos st ns sec it sl visits moves' kids ta pick some none)+
  then show ?thesis
    by (intro exI[of _ N] exI[of _ h] exI[of _ leaves] exI[of _ a])
qed

text \<open>A clock of 2000 ticks for each pass of the loop, at 1000000 ticks a second.\<close>

definition steady_clock :: "nat \<Rightarrow> int" where
  "steady_clock n = int n * 2000"

lemma steady_clock_up: "time_up steady_clock 1000000 500"
  using time_up_seconds[of 1000000 steady_clock 500] by (simp add: steady_clock_def)

lemma fill_legal:
  "(place_at (fill_player 2) i black [empty_piece, white] \<noteq> None) = (i = 0)"
  "place_at (fill_player 2) i black [black, white] = None"
proof -
  show "(place_at (fill_player 2) i black [empty_piece, white] \<noteq> None) = (i = 0)"
    by (cases i) (auto simp: fill_player_def fill_rules_def nth_Cons split: nat.splits)
  show "place_at (fill_player 2) i black [black, white] = None"
    by (cases i) (auto simp: fill_player_def fill_rules_def nth_Cons split: nat.splits)
qed

theorem mcts_take_action_result_witness:
  "player_ok (fill_player 2) \<and> decreasing (fill_player 2) count_empty
   \<and> time_up steady_clock 1000000 500
   \<and> mcts_take_action (fill_player 2) steady_clock 1000000 (\<lambda>n. plain_choice) [empty_piece, white]
       = Some (place 0 black)
   \<and> mcts_take_action (fill_player 2) steady_clock 1000000 (\<lambda>n. plain_choice) [black, white]
       = Some no_action
   \<and> (\<exists>i<2. mcts_take_action (fill_player 2) steady_clock 1000000 (\<lambda>n. plain_choice)
         [empty_piece, empty_piece] = Some (place i black))"
proof -
  have e: "\<exists>N. 0 < N \<and> N mod 500 = 0 \<and> time_up steady_clock 1000000 N"
    using steady_clock_up by (intro exI[of _ 500]) simp
  have w: "who (fill_player 2) = black" "space_size (fill_player 2) = 2"
    by (simp_all add: fill_player_def)
  from mcts_take_action_result[OF fill_player_ok[of 2] fill_decreasing[of 2]
      plain_choice_shuffles e, of "[empty_piece, white]"]
  obtain a where a: "mcts_take_action (fill_player 2) steady_clock 1000000 (\<lambda>n. plain_choice)
         [empty_piece, white] = Some a"
    and l: "(\<exists>i<space_size (fill_player 2).
              place_at (fill_player 2) i (who (fill_player 2)) [empty_piece, white] \<noteq> None) \<longrightarrow>
           (\<exists>i<space_size (fill_player 2). a = place i (who (fill_player 2))
              \<and> place_at (fill_player 2) i (who (fill_player 2)) [empty_piece, white] \<noteq> None)"
    by blast
  have "\<exists>i<space_size (fill_player 2).
      place_at (fill_player 2) i (who (fill_player 2)) [empty_piece, white] \<noteq> None"
    using fill_legal(1)[of 0] by (intro exI[of _ 0]) (simp add: w)
  with l obtain i where "a = place i black"
    "place_at (fill_player 2) i black [empty_piece, white] \<noteq> None"
    by (auto simp: w(1))
  then have "a = place 0 black" using fill_legal(1)[of i] by simp
  with a have one: "mcts_take_action (fill_player 2) steady_clock 1000000 (\<lambda>n. plain_choice)
         [empty_piece, white] = Some (place 0 black)"
    by simp
  from mcts_take_action_result[OF fill_player_ok[of 2] fill_decreasing[of 2]
      plain_choice_shuffles e, of "[black, white]"]
  obtain a2 where a2: "mcts_take_action (fill_player 2) steady_clock 1000000 (\<lambda>n. plain_choice)
         [black, white] = Some a2"
    and n: "(\<forall>i<space_size (fill_player 2).
              place_at (fill_player 2) i (who (fill_player 2)) [black, white] = None) \<longrightarrow>
           a2 = no_action"
    by blast
  have "\<forall>i<space_size (fill_player 2).
      place_at (fill_player 2) i (who (fill_player 2)) [black, white] = None"
    using fill_legal(2) by (simp add: w(1))
  with n a2 have "mcts_take_action (fill_player 2) steady_clock 1000000 (\<lambda>n. plain_choice)
       [black, white] = Some no_action"
    by simp
  note none = this
  from mcts_take_action_result[OF fill_player_ok[of 2] fill_decreasing[of 2]
      plain_choice_shuffles e, of "[empty_piece, empty_piece]"]
  obtain a3 where a3: "mcts_take_action (fill_player 2) steady_clock 1000000 (\<lambda>n. plain_choice)
         [empty_piece, empty_piece] = Some a3"
    and l3: "(\<exists>i<space_size (fill_player 2).
              place_at (fill_player 2) i (who (fill_player 2)) [empty_piece, empty_piece] \<noteq> None) \<longrightarrow>
           (\<exists>i<space_size (fill_player 2). a3 = place i (who (fill_player 2))
              \<and> place_at (fill_player 2) i (who (fill_player 2)) [empty_piece, empty_piece] \<noteq> None)"
    by blast
  have "place_at (fill_player 2) 0 black [empty_piece, empty_piece] \<noteq> None"
    by (simp add: fill_player_def fill_rules_def)
  then have "\<exists>i<space_size (fill_player 2).
      place_at (fill_player 2) i (who (fill_player 2)) [empty_piece, empty_piece] \<noteq> None"
    by (intro exI[of _ 0]) (simp add: w)
  with l3 obtain i where "i < 2" "a3 = place i black"
    by (auto simp: w)
  with a3 have two: "\<exists>i<2. mcts_take_action (fill_player 2) steady_clock 1000000
      (\<lambda>n. plain_choice) [empty_piece, empty_piece] = Some (place i black)"
    by blast
  from one none two show ?thesis
    using fill_player_ok[of 2] fill_decreasing[of 2] steady_clock_up by simp
qed

end
